theory Spec2Isabelle
  imports Complex_Main "HOL-Library.Word"
begin

section \<open>Phototonic image viewer: the transform and colour-grading core of ImageViewer.cpp\<close>

text \<open>
  The viewer's pipeline is embedded function by function. C \<^verbatim>\<open>int\<close> is \<^typ>\<open>int\<close>
  (the settings are small configuration values; overflow of a 32-bit \<^verbatim>\<open>int\<close> is
  undefined behaviour in C and is not modelled) and \<^verbatim>\<open>unsigned char\<close> is \<^typ>\<open>8 word\<close>.

  A \<^verbatim>\<open>float\<close> or \<^verbatim>\<open>double\<close> value is the real number it denotes, and the result of a
  floating-point operation is the exact result rounded to the nearest number with a
  significand of 24 bits (\<^verbatim>\<open>float\<close>) or 53 bits (\<^verbatim>\<open>double\<close>), a tie going to the even
  significand: \<open>to_float\<close> and \<open>to_double\<close>. The exponent range is not modelled: there
  are no infinities, NaNs or subnormal numbers. The quantities of the viewer (pixel
  channels, image sizes, the zoom factor) lie far inside the normal range; the places
  where the C code divides by zero are pointed out where they occur.

  The rounding is written out where it decides a result: in \<^verbatim>\<open>rgbToHsl\<close>, where a hue
  that lies exactly half-way between two integers is computed a little too low and is
  then rounded down, and in the \<^verbatim>\<open>float\<close> arithmetic of \<^verbatim>\<open>calcZoom\<close>, \<^verbatim>\<open>getHeightByWidth\<close> and
  \<^verbatim>\<open>getWidthByHeight\<close>. \<^verbatim>\<open>hslValue\<close> and \<^verbatim>\<open>hslToRgb\<close> are written over exact reals: when
  their arguments are 8-bit values, as in the viewer, the number \<^verbatim>\<open>value * 255.0 + 0.5\<close>
  that \<^verbatim>\<open>hslValue\<close> truncates is an odd multiple of 1/43350 and so never an integer, while
  the rounding errors of the \<^verbatim>\<open>double\<close> operations leading to it stay far below that
  distance; the truncated value is the same. In the two table loops of \<^verbatim>\<open>colorize\<close> the
  library functions \<^verbatim>\<open>tan\<close> and \<^verbatim>\<open>pow\<close> are the real functions and the arithmetic around
  them is exact.
\<close>

subsection \<open>C arithmetic\<close>

type_synonym uchar = "8 word"

definition c_trunc :: "real \<Rightarrow> int" where
  \<comment> \<open>the conversion \<^verbatim>\<open>(int) x\<close> of a floating value: the fraction is discarded\<close>
  "c_trunc x = (if 0 \<le> x then \<lfloor>x\<rfloor> else \<lceil>x\<rceil>)"

definition rne :: "real \<Rightarrow> int" where
  \<comment> \<open>rounding to the nearest integer, a tie going to the even one\<close>
  "rne y = (let f = \<lfloor>y\<rfloor>; d = y - real_of_int f in
            if d < 1 / 2 then f else if 1 / 2 < d then f + 1 else if even f then f else f + 1)"

definition fround :: "nat \<Rightarrow> real \<Rightarrow> real" where
  \<comment> \<open>rounding to the nearest number with a significand of \<open>p\<close> bits; \<open>e\<close> is the exponent of
      the last bit of the significand of \<open>x\<close>\<close>
  "fround p x =
     (if x = 0 then 0
      else let e = \<lfloor>log 2 \<bar>x\<bar>\<rfloor> - int p + 1
           in real_of_int (rne (x / 2 powi e)) * 2 powi e)"

definition to_float :: "real \<Rightarrow> real" where
  \<comment> \<open>the result of an operation on \<^verbatim>\<open>float\<close>, or of a conversion to \<^verbatim>\<open>float\<close>\<close>
  "to_float x = fround 24 x"

definition to_double :: "real \<Rightarrow> real" where
  \<comment> \<open>the result of an operation on \<^verbatim>\<open>double\<close>\<close>
  "to_double x = fround 53 x"

definition c_div :: "int \<Rightarrow> int \<Rightarrow> int" where
  \<comment> \<open>integer division of C: the quotient is rounded towards zero\<close>
  "c_div a b = (if (a < 0) = (b < 0) then \<bar>a\<bar> div \<bar>b\<bar> else - (\<bar>a\<bar> div \<bar>b\<bar>))"

definition to_uchar :: "int \<Rightarrow> uchar" where
  \<comment> \<open>storing an \<^verbatim>\<open>int\<close> into an \<^verbatim>\<open>unsigned char\<close>: reduction modulo 256\<close>
  "to_uchar n = word_of_int n"

definition ROUND :: "real \<Rightarrow> int" where
  \<comment> \<open>\<^verbatim>\<open>#define ROUND(x) ((int) ((x) + 0.5))\<close>\<close>
  "ROUND x = c_trunc (x + 1 / 2)"

definition ROUND_double :: "real \<Rightarrow> int" where
  \<comment> \<open>\<^verbatim>\<open>ROUND(x)\<close> for a \<^verbatim>\<open>double x\<close>: the addition of 0.5 is an operation on \<^verbatim>\<open>double\<close>\<close>
  "ROUND_double x = c_trunc (to_double (x + 1 / 2))"

definition MAX_macro :: "int \<Rightarrow> int \<Rightarrow> int" where
  "MAX_macro a b = (if a > b then a else b)"

definition MIN_macro :: "int \<Rightarrow> int \<Rightarrow> int" where
  "MIN_macro a b = (if a < b then a else b)"

definition bound0To255 :: "int \<Rightarrow> int" where
  "bound0To255 val = (if val > 255 then 255 else if val < 0 then 0 else val)"

subsection \<open>Pixels\<close>

text \<open>
  A \<^verbatim>\<open>QRgb\<close> is a 32-bit word holding four 8-bit channels (alpha, red, green, blue).
  It is modelled by its four channels; \<^verbatim>\<open>qRgba\<close> and \<^verbatim>\<open>qRgb\<close> mask each argument with
  \<^verbatim>\<open>0xff\<close> before packing it.
\<close>

record QRgb =
  qAlpha :: uchar
  qRed :: uchar
  qGreen :: uchar
  qBlue :: uchar

definition qRgba :: "int \<Rightarrow> int \<Rightarrow> int \<Rightarrow> int \<Rightarrow> QRgb" where
  "qRgba r g b a = \<lparr>qAlpha = to_uchar a, qRed = to_uchar r, qGreen = to_uchar g, qBlue = to_uchar b\<rparr>"

definition qRgb :: "int \<Rightarrow> int \<Rightarrow> int \<Rightarrow> QRgb" where
  "qRgb r g b = \<lparr>qAlpha = 255, qRed = to_uchar r, qGreen = to_uchar g, qBlue = to_uchar b\<rparr>"

subsection \<open>RGB and HSL\<close>

definition foldHue :: "real \<Rightarrow> real" where
  \<comment> \<open>the first statement of \<^verbatim>\<open>hslValue\<close>: one fold by 255, not a modulo\<close>
  "foldHue hue = (if hue > 255 then hue - 255 else if hue < 0 then hue + 255 else hue)"

definition hslValue :: "real \<Rightarrow> real \<Rightarrow> real \<Rightarrow> int" where
  "hslValue n1 n2 hue0 =
     (let hue = foldHue hue0;
          val = (if hue < 85 / 2 then n1 + (n2 - n1) * (hue / (85 / 2))
                 else if hue < 255 / 2 then n2
                 else if hue < 170 then n1 + (n2 - n1) * ((170 - hue) / (85 / 2))
                 else n1)
      in ROUND (val * 255))"

definition rgbToHsl :: "int \<Rightarrow> int \<Rightarrow> int \<Rightarrow> uchar \<times> uchar \<times> uchar" where
  \<comment> \<open>\<^verbatim>\<open>h\<close>, \<^verbatim>\<open>s\<close> and \<^verbatim>\<open>l\<close> are \<^verbatim>\<open>double\<close>; the conversions of \<^verbatim>\<open>int\<close> values and the product
      \<^verbatim>\<open>255 * (double) delta\<close> are exact\<close>
  "rgbToHsl r g b =
     (let (mx, mn) = (if r > g then (MAX_macro r b, MIN_macro g b) else (MAX_macro g b, MIN_macro r b));
          l = to_double (real_of_int (mx + mn) / 2);
          (h, s) =
            (if mx = mn then (0, 0)
             else
               let delta = mx - mn;
                   s = (if l < 128 then to_double (255 * real_of_int delta / real_of_int (mx + mn))
                        else to_double (255 * real_of_int delta / real_of_int (511 - mx - mn)));
                   h0 = (if r = mx then to_double (real_of_int (g - b) / real_of_int delta)
                         else if g = mx then to_double (2 + to_double (real_of_int (b - r) / real_of_int delta))
                         else to_double (4 + to_double (real_of_int (r - g) / real_of_int delta)));
                   h1 = to_double (h0 * (85 / 2));
                   h2 = (if h1 < 0 then to_double (h1 + 255)
                         else if h1 > 255 then to_double (h1 - 255) else h1)
               in (h2, s))
      in (to_uchar (ROUND_double h), to_uchar (ROUND_double s), to_uchar (ROUND_double l)))"

definition hslToRgb :: "real \<Rightarrow> real \<Rightarrow> real \<Rightarrow> uchar \<times> uchar \<times> uchar" where
  "hslToRgb h s l =
     (if s = 0 then (to_uchar (c_trunc l), to_uchar (c_trunc l), to_uchar (c_trunc l))
      else
        let m2 = (if l < 128 then (l * (255 + s)) / 65025
                  else (l + s - (l * s) / 255) / 255);
            m1 = (l / (255 / 2)) - m2
        in (to_uchar (hslValue m1 m2 (h + 85)),
            to_uchar (hslValue m1 m2 h),
            to_uchar (hslValue m1 m2 (h - 85))))"

definition roundTrip :: "int \<Rightarrow> int \<Rightarrow> int \<Rightarrow> uchar \<times> uchar \<times> uchar" where
  \<comment> \<open>\<^verbatim>\<open>rgbToHsl(r, g, b, &h, &s, &l); hslToRgb(h, s, l, &hr, &hg, &hb);\<close>\<close>
  "roundTrip r g b =
     (let (h, s, l) = rgbToHsl r g b
      in hslToRgb (real_of_int (uint h)) (real_of_int (uint s)) (real_of_int (uint l)))"

text \<open>
  Three notions used to analyse the round trip. \<open>ramp\<close> is the profile of \<^verbatim>\<open>hslValue\<close>:
  \<open>hslValue n1 n2 hue = ROUND ((n1 + (n2 - n1) * ramp (foldHue hue)) * 255)\<close>. \<open>hueDouble\<close> is
  the hue \<^verbatim>\<open>h\<close> that \<^verbatim>\<open>rgbToHsl\<close> holds before \<^verbatim>\<open>ROUND\<close>, and \<open>hueOf\<close> is the same
  expression evaluated without rounding.
\<close>

definition ramp :: "real \<Rightarrow> real" where
  "ramp hue = (if hue < 85 / 2 then hue / (85 / 2)
               else if hue < 255 / 2 then 1
               else if hue < 170 then (170 - hue) / (85 / 2)
               else 0)"

definition hueDouble :: "int \<Rightarrow> int \<Rightarrow> int \<Rightarrow> real" where
  "hueDouble r g b =
     (let mx = max r (max g b); mn = min r (min g b); delta = mx - mn;
          h0 = (if r = mx then to_double (real_of_int (g - b) / real_of_int delta)
                else if g = mx then to_double (2 + to_double (real_of_int (b - r) / real_of_int delta))
                else to_double (4 + to_double (real_of_int (r - g) / real_of_int delta)));
          h1 = to_double (h0 * (85 / 2))
      in if h1 < 0 then to_double (h1 + 255) else if h1 > 255 then to_double (h1 - 255) else h1)"

definition hueOf :: "int \<Rightarrow> int \<Rightarrow> int \<Rightarrow> real" where
  "hueOf r g b =
     (let mx = max r (max g b); mn = min r (min g b); delta = mx - mn;
          h0 = (if r = mx then real_of_int (g - b) / real_of_int delta
                else if g = mx then 2 + real_of_int (b - r) / real_of_int delta
                else 4 + real_of_int (r - g) / real_of_int delta);
          h1 = h0 * (85 / 2)
      in if h1 < 0 then h1 + 255 else if h1 > 255 then h1 - 255 else h1)"

text \<open>
  \<open>backLevels mx mn\<close> is the pair \<open>(255 * m1, 255 * m2)\<close> of levels that \<^verbatim>\<open>hslToRgb\<close>
  interpolates between when it is given the lightness and saturation that \<^verbatim>\<open>rgbToHsl\<close>
  stores for a pixel whose largest channel is \<open>mx\<close> and whose smallest is \<open>mn\<close>;
  \<open>levels_ok\<close> bounds how far these levels lie above \<open>mn\<close> and \<open>mx\<close>.
\<close>

definition backLevels :: "int \<Rightarrow> int \<Rightarrow> real \<times> real" where
  "backLevels mx mn =
     (let L = real_of_int (mx + mn) / 2;
          S = (if L < 128 then 255 * real_of_int (mx - mn) / real_of_int (mx + mn)
               else 255 * real_of_int (mx - mn) / real_of_int (511 - mx - mn));
          l = real_of_int (ROUND L);
          s = real_of_int (ROUND S);
          m2 = (if l < 128 then (l * (255 + s)) / 65025 else (l + s - (l * s) / 255) / 255);
          m1 = (l / (255 / 2)) - m2
      in (255 * m1, 255 * m2))"

definition levels_ok :: "int \<Rightarrow> int \<Rightarrow> bool" where
  "levels_ok mx mn \<longleftrightarrow>
     fst (backLevels mx mn) - real_of_int mn + real_of_int (mx - mn) / 85 < 9 / 2 \<and>
     snd (backLevels mx mn) - real_of_int mx + real_of_int (mx - mn) / 85 < 9 / 2"

subsection \<open>Colour grading\<close>

record color_settings =
  contrastVal :: int
  brightVal :: int
  hueVal :: int
  saturationVal :: int
  lightnessVal :: int
  colorizeEnabled :: bool
  rNegateEnabled :: bool
  gNegateEnabled :: bool
  bNegateEnabled :: bool
  redVal :: int
  greenVal :: int
  blueVal :: int
  hueRedChannel :: bool
  hueGreenChannel :: bool
  hueBlueChannel :: bool

definition contrastEntry :: "int \<Rightarrow> int \<Rightarrow> uchar" where
  \<comment> \<open>one iteration of the first table loop of \<^verbatim>\<open>colorize\<close>; \<^verbatim>\<open>contrast = contrastVal / 100\<close>\<close>
  "contrastEntry cv i =
     (let contrast = real_of_int cv / 100 in
      if i < c_trunc (128 + 128 * tan contrast) \<and> i > c_trunc (128 - 128 * tan contrast)
      then to_uchar (c_trunc (real_of_int (i - 128) / tan contrast + 128))
      else if i \<ge> c_trunc (128 + 128 * tan contrast) then 255
      else 0)"

definition contrastTransform :: "int \<Rightarrow> uchar list" where
  "contrastTransform cv = map (contrastEntry cv) [0..255]"

definition brightEntry :: "int \<Rightarrow> int \<Rightarrow> uchar" where
  \<comment> \<open>one iteration of the second table loop. \<^verbatim>\<open>brightness\<close> is a \<^verbatim>\<open>float\<close>: the \<^verbatim>\<open>double\<close>
      quotient \<^verbatim>\<open>(float) brightVal / 100.0\<close> stored into it. For \<^verbatim>\<open>brightVal = 0\<close> the exponent
      \<^verbatim>\<open>1.0 / brightness\<close> is \<open>+\<infinity>\<close>, and \<^verbatim>\<open>pow(x, +\<infinity>)\<close> is 1 for \<open>x = 1\<close> and 0 for \<open>0 \<le> x < 1\<close>.
      (For a negative \<^verbatim>\<open>brightVal\<close> the power is an infinity at index 0 and can exceed the
      range of \<^verbatim>\<open>int\<close> elsewhere; C leaves the conversion of such a value undefined, and
      the entries of the definition have no counterpart there.)\<close>
  "brightEntry bv i =
     (let brightness = to_float (to_double (real_of_int bv / 100)) in
      if brightness = 0
      then to_uchar (MIN_macro 255 (c_trunc (255 * (if i = 255 then 1 else 0) + 1 / 2)))
      else to_uchar (MIN_macro 255 (c_trunc (255 * ((real_of_int i / 255) powr (1 / brightness)) + 1 / 2))))"

definition brightTransform :: "int \<Rightarrow> uchar list" where
  "brightTransform bv = map (brightEntry bv) [0..255]"

definition newHue :: "color_settings \<Rightarrow> uchar \<Rightarrow> uchar" where
  \<comment> \<open>\<^verbatim>\<open>h = Settings::colorizeEnabled ? Settings::hueVal : h + Settings::hueVal;\<close>\<close>
  "newHue cs h = (if colorizeEnabled cs then to_uchar (hueVal cs) else to_uchar (uint h + hueVal cs))"

definition gradePixel :: "color_settings \<Rightarrow> uchar list \<Rightarrow> uchar list \<Rightarrow> bool \<Rightarrow> QRgb \<Rightarrow> QRgb" where
  \<comment> \<open>the body of the inner loop of \<^verbatim>\<open>colorize\<close>, for the pixel \<^verbatim>\<open>line[x]\<close>\<close>
  "gradePixel cs contrastT brightT hasAlpha px =
     (let r0 = (if rNegateEnabled cs then bound0To255 (255 - uint (qRed px)) else uint (qRed px));
          g0 = (if gNegateEnabled cs then bound0To255 (255 - uint (qGreen px)) else uint (qGreen px));
          b0 = (if bNegateEnabled cs then bound0To255 (255 - uint (qBlue px)) else uint (qBlue px));
          r1 = bound0To255 (c_div (r0 * (redVal cs + 100)) 100);
          g1 = bound0To255 (c_div (g0 * (greenVal cs + 100)) 100);
          b1 = bound0To255 (c_div (b0 * (blueVal cs + 100)) 100);
          r2 = bound0To255 (uint (brightT ! nat r1));
          g2 = bound0To255 (uint (brightT ! nat g1));
          b2 = bound0To255 (uint (brightT ! nat b1));
          r3 = bound0To255 (uint (contrastT ! nat r2));
          g3 = bound0To255 (uint (contrastT ! nat g2));
          b3 = bound0To255 (uint (contrastT ! nat b2));
          (h, s, l) = rgbToHsl r3 g3 b3;
          h' = newHue cs h;
          s' = to_uchar (bound0To255 (c_div (uint s * saturationVal cs) 100));
          l' = to_uchar (bound0To255 (c_div (uint l * lightnessVal cs) 100));
          (hr, hg, hb) = hslToRgb (real_of_int (uint h')) (real_of_int (uint s')) (real_of_int (uint l'));
          r = (if hueRedChannel cs then uint hr else uint (qRed px));
          g = (if hueGreenChannel cs then uint hg else uint (qGreen px));
          b = (if hueBlueChannel cs then uint hb else uint (qBlue px))
      in if hasAlpha then qRgba r g b (uint (qAlpha px)) else qRgb r g b)"

definition preHslChannels :: "color_settings \<Rightarrow> uchar list \<Rightarrow> uchar list \<Rightarrow> QRgb \<Rightarrow> int \<times> int \<times> int" where
  \<comment> \<open>the values of \<^verbatim>\<open>r\<close>, \<^verbatim>\<open>g\<close> and \<^verbatim>\<open>b\<close> with which the inner loop of \<^verbatim>\<open>colorize\<close> calls
      \<^verbatim>\<open>rgbToHsl\<close>: the channels of \<^verbatim>\<open>line[x]\<close> after negation, gain and the two tables\<close>
  "preHslChannels cs contrastT brightT px =
     (let r0 = (if rNegateEnabled cs then bound0To255 (255 - uint (qRed px)) else uint (qRed px));
          g0 = (if gNegateEnabled cs then bound0To255 (255 - uint (qGreen px)) else uint (qGreen px));
          b0 = (if bNegateEnabled cs then bound0To255 (255 - uint (qBlue px)) else uint (qBlue px));
          r1 = bound0To255 (c_div (r0 * (redVal cs + 100)) 100);
          g1 = bound0To255 (c_div (g0 * (greenVal cs + 100)) 100);
          b1 = bound0To255 (c_div (b0 * (blueVal cs + 100)) 100);
          r2 = bound0To255 (uint (brightT ! nat r1));
          g2 = bound0To255 (uint (brightT ! nat g1));
          b2 = bound0To255 (uint (brightT ! nat b1));
          r3 = bound0To255 (uint (contrastT ! nat r2));
          g3 = bound0To255 (uint (contrastT ! nat g2));
          b3 = bound0To255 (uint (contrastT ! nat b2))
      in (r3, g3, b3))"

text \<open>
  An image in one of the three direct 32-bit formats: its scan lines, top to bottom, and
  whether the format has an alpha channel. (\<^verbatim>\<open>colorize\<close> converts an image of any other
  format to \<^verbatim>\<open>Format_RGB32\<close> before the loops; the model starts after that conversion.)
\<close>

record QImage =
  width :: int
  height :: int
  hasAlphaChannel :: bool
  scanLines :: "QRgb list list"

definition valid_image :: "QImage \<Rightarrow> bool" where
  \<comment> \<open>the scan lines agree with the recorded size; an image without pixels is 0 \<open>\<times>\<close> 0\<close>
  "valid_image img \<longleftrightarrow>
     height img = int (length (scanLines img)) \<and>
     list_all (\<lambda>line. int (length line) = width img) (scanLines img) \<and>
     (0 < width img \<and> 0 < height img \<or> width img = 0 \<and> height img = 0)"

definition opaque_image :: "QImage \<Rightarrow> bool" where
  "opaque_image img \<longleftrightarrow> list_all (list_all (\<lambda>p. qAlpha p = 255)) (scanLines img)"

definition colorize :: "color_settings \<Rightarrow> QImage \<Rightarrow> QImage" where
  "colorize cs viewerImage =
     (let hasAlpha = hasAlphaChannel viewerImage;
          contrastT = contrastTransform (contrastVal cs);
          brightT = brightTransform (brightVal cs)
      in viewerImage\<lparr>scanLines := map (map (gradePixel cs contrastT brightT hasAlpha)) (scanLines viewerImage)\<rparr>)"

subsection \<open>Qt image operations used by the viewer\<close>

text \<open>
  \<^verbatim>\<open>QImage\<close> and \<^verbatim>\<open>QPainter\<close> belong to Qt, not to the viewer; the operations the viewer
  calls are modelled after Qt's documented behaviour.
  \<^item> \<^verbatim>\<open>QImage()\<close> is the null image: no pixels, width and height 0.
  \<^item> \<^verbatim>\<open>QImage(w, h, format)\<close> allocates the pixels without initialising them; the content of
    the fresh buffer is the parameter \<open>garbage\<close>. A non-positive size gives the null image.
  \<^item> \<^verbatim>\<open>mirrored(horizontal, vertical)\<close> reverses every scan line, the order of the scan
    lines, both, or neither.
  \<^item> \<^verbatim>\<open>copy(x, y, w, h)\<close> copies the whole image when the rectangle is null (width and
    height both 0), gives the null image when the width or the height is not positive,
    and else gives a \<open>w \<times> h\<close> image whose pixels outside the source are 0.
  \<^item> \<^verbatim>\<open>QPainter::drawImage\<close> composes with the painter's default mode, SourceOver: an opaque
    source pixel replaces the destination pixel; how a pixel that is not opaque is blended
    with the destination is the parameter \<open>blend\<close>.
\<close>

definition nullImage :: QImage where
  "nullImage = \<lparr>width = 0, height = 0, hasAlphaChannel = False, scanLines = []\<rparr>"

definition newImage_ARGB32 :: "(int \<Rightarrow> int \<Rightarrow> QRgb) \<Rightarrow> int \<Rightarrow> int \<Rightarrow> QImage" where
  "newImage_ARGB32 garbage w h =
     (if w \<le> 0 \<or> h \<le> 0 then nullImage
      else \<lparr>width = w, height = h, hasAlphaChannel = True,
             scanLines = map (\<lambda>y. map (\<lambda>x. garbage x y) [0..w - 1]) [0..h - 1]\<rparr>)"

definition mirrored :: "bool \<Rightarrow> bool \<Rightarrow> QImage \<Rightarrow> QImage" where
  "mirrored horizontal vertical img =
     img\<lparr>scanLines :=
           (if vertical then rev else id) (map (if horizontal then rev else id) (scanLines img))\<rparr>"

definition pixelAt :: "QImage \<Rightarrow> int \<Rightarrow> int \<Rightarrow> QRgb" where
  "pixelAt img x y = scanLines img ! nat y ! nat x"

definition insideImage :: "QImage \<Rightarrow> int \<Rightarrow> int \<Rightarrow> bool" where
  "insideImage img x y \<longleftrightarrow> 0 \<le> x \<and> x < width img \<and> 0 \<le> y \<and> y < height img"

definition transparentBlack :: QRgb where
  "transparentBlack = \<lparr>qAlpha = 0, qRed = 0, qGreen = 0, qBlue = 0\<rparr>"

definition copy_rect :: "QImage \<Rightarrow> int \<Rightarrow> int \<Rightarrow> int \<Rightarrow> int \<Rightarrow> QImage" where
  "copy_rect img x y w h =
     (if w = 0 \<and> h = 0 then img
      else if w \<le> 0 \<or> h \<le> 0 then nullImage
      else img\<lparr>width := w, height := h,
               scanLines :=
                 map (\<lambda>j. map (\<lambda>i. if insideImage img (x + i) (y + j) then pixelAt img (x + i) (y + j)
                                     else transparentBlack) [0..w - 1]) [0..h - 1]\<rparr>)"

definition drawPixel :: "(QRgb \<Rightarrow> QRgb \<Rightarrow> QRgb) \<Rightarrow> QRgb \<Rightarrow> QRgb \<Rightarrow> QRgb" where
  "drawPixel blend src dst = (if qAlpha src = 255 then src else blend src dst)"

definition drawImage :: "(QRgb \<Rightarrow> QRgb \<Rightarrow> QRgb) \<Rightarrow> QImage \<Rightarrow> int \<Rightarrow> int \<Rightarrow> QImage \<Rightarrow> QImage" where
  \<comment> \<open>\<^verbatim>\<open>painter.drawImage(x0, y0, src)\<close> for a painter on \<open>canvas\<close>\<close>
  "drawImage blend canvas x0 y0 src =
     canvas\<lparr>scanLines :=
       map (\<lambda>y. map (\<lambda>x. if insideImage src (x - x0) (y - y0)
                           then drawPixel blend (pixelAt src (x - x0) (y - y0)) (pixelAt canvas x y)
                           else pixelAt canvas x y)
                     [0..width canvas - 1])
           [0..height canvas - 1]\<rparr>"

subsection \<open>Geometric transform\<close>

record transform_settings =
  rotation :: real
  flipH :: bool
  flipV :: bool
  cropLeft :: int
  cropTop :: int
  cropWidth :: int
  cropHeight :: int
  cropLeftPercent :: int
  cropTopPercent :: int
  cropWidthPercent :: int
  cropHeightPercent :: int

definition qFuzzyCompare :: "real \<Rightarrow> real \<Rightarrow> bool" where
  "qFuzzyCompare p1 p2 \<longleftrightarrow> \<bar>p1 - p2\<bar> * 1000000000000 \<le> min \<bar>p1\<bar> \<bar>p2\<bar>"

definition cropRect :: "transform_settings \<Rightarrow> QImage \<Rightarrow> (int \<times> int \<times> int \<times> int) option" where
  \<comment> \<open>the arguments of the \<^verbatim>\<open>copy\<close> call at the end of \<^verbatim>\<open>transform\<close>, if one is made\<close>
  "cropRect ts viewerImage =
     (let croppingOn = (cropLeftPercent ts \<noteq> 0 \<or> cropTopPercent ts \<noteq> 0
                        \<or> cropWidthPercent ts \<noteq> 0 \<or> cropHeightPercent ts \<noteq> 0);
          cropLeftPercentPixels =
            (if croppingOn then c_div (width viewerImage * cropLeftPercent ts) 100 else 0);
          cropTopPercentPixels =
            (if croppingOn then c_div (height viewerImage * cropTopPercent ts) 100 else 0);
          cropWidthPercentPixels =
            (if croppingOn then c_div (width viewerImage * cropWidthPercent ts) 100 else 0);
          cropHeightPercentPixels =
            (if croppingOn then c_div (height viewerImage * cropHeightPercent ts) 100 else 0)
      in if cropLeft ts \<noteq> 0 \<or> cropTop ts \<noteq> 0 \<or> cropWidth ts \<noteq> 0 \<or> cropHeight ts \<noteq> 0
         then Some (cropLeft ts + cropLeftPercentPixels,
                    cropTop ts + cropTopPercentPixels,
                    width viewerImage - cropLeft ts - cropWidth ts - cropLeftPercentPixels
                      - cropWidthPercentPixels,
                    height viewerImage - cropTop ts - cropHeight ts - cropTopPercentPixels
                      - cropHeightPercentPixels)
         else if croppingOn
         then Some (cropLeftPercentPixels,
                    cropTopPercentPixels,
                    width viewerImage - cropLeftPercentPixels - cropWidthPercentPixels,
                    height viewerImage - cropTopPercentPixels - cropHeightPercentPixels)
         else None)"

definition rotateFlip :: "(real \<Rightarrow> QImage \<Rightarrow> QImage) \<Rightarrow> transform_settings \<Rightarrow> QImage \<Rightarrow> QImage" where
  \<comment> \<open>the first two statements of \<^verbatim>\<open>transform\<close>; \<open>transformed\<close> stands for Qt's smooth
      resampling under a rotation by the given angle\<close>
  "rotateFlip transformed ts viewerImage0 =
     (let viewerImage1 = (if \<not> qFuzzyCompare (rotation ts) 0
                          then transformed (rotation ts) viewerImage0 else viewerImage0)
      in if flipH ts \<or> flipV ts
         then mirrored (flipH ts) (flipV ts) viewerImage1 else viewerImage1)"

definition transform :: "(real \<Rightarrow> QImage \<Rightarrow> QImage) \<Rightarrow> transform_settings \<Rightarrow> QImage \<Rightarrow> QImage" where
  "transform transformed ts viewerImage0 =
     (let viewerImage = rotateFlip transformed ts viewerImage0
      in case cropRect ts viewerImage of
           Some (x, y, w, h) \<Rightarrow> copy_rect viewerImage x y w h
         | None \<Rightarrow> viewerImage)"

subsection \<open>Mirror layouts\<close>

datatype MirrorLayout = LayNone | LayDual | LayTriple | LayQuad | LayVDual

definition mirror ::
  "(QRgb \<Rightarrow> QRgb \<Rightarrow> QRgb) \<Rightarrow> (int \<Rightarrow> int \<Rightarrow> QRgb) \<Rightarrow> MirrorLayout \<Rightarrow> QImage \<Rightarrow> QImage \<Rightarrow> QImage" where
  \<comment> \<open>the new \<^verbatim>\<open>viewerImage\<close>; \<open>mirrorImage\<close> is the member as the previous call left it\<close>
  "mirror blend garbage mirrorLayout mirrorImage viewerImage =
     (let w = width viewerImage; h = height viewerImage in
      case mirrorLayout of
        LayDual \<Rightarrow>
          (let m0 = newImage_ARGB32 garbage (w * 2) h;
               m1 = drawImage blend m0 0 0 viewerImage;
               m2 = drawImage blend m1 w 0 (mirrored True False viewerImage)
           in m2)
      | LayTriple \<Rightarrow>
          (let m0 = newImage_ARGB32 garbage (w * 3) h;
               m1 = drawImage blend m0 0 0 viewerImage;
               m2 = drawImage blend m1 w 0 (mirrored True False viewerImage);
               m3 = drawImage blend m2 (w * 2) 0 (mirrored False False viewerImage)
           in m3)
      | LayQuad \<Rightarrow>
          (let m0 = newImage_ARGB32 garbage (w * 2) (h * 2);
               m1 = drawImage blend m0 0 0 viewerImage;
               m2 = drawImage blend m1 w 0 (mirrored True False viewerImage);
               m3 = drawImage blend m2 0 h (mirrored False True viewerImage);
               m4 = drawImage blend m3 w h (mirrored True True viewerImage)
           in m4)
      | LayVDual \<Rightarrow>
          (let m0 = newImage_ARGB32 garbage w (h * 2);
               m1 = drawImage blend m0 0 0 viewerImage;
               m2 = drawImage blend m1 0 h (mirrored False True viewerImage)
           in m2)
      | LayNone \<Rightarrow> mirrorImage)"

subsection \<open>Zoom fit\<close>

datatype ZoomMethods = Disable | WidthAndHeight | Width | Height | Disprop

datatype AspectRatioMode = IgnoreAspectRatio | KeepAspectRatio | KeepAspectRatioByExpanding

record QSize =
  wd :: int
  ht :: int

definition isEmpty :: "QSize \<Rightarrow> bool" where
  "isEmpty sz \<longleftrightarrow> wd sz < 1 \<or> ht sz < 1"

definition scale :: "QSize \<Rightarrow> int \<Rightarrow> int \<Rightarrow> AspectRatioMode \<Rightarrow> QSize" where
  \<comment> \<open>Qt's \<^verbatim>\<open>QSize::scale(w, h, mode)\<close>\<close>
  "scale sz w h mode =
     (if mode = IgnoreAspectRatio \<or> wd sz = 0 \<or> ht sz = 0 then \<lparr>wd = w, ht = h\<rparr>
      else
        let rw = c_div (h * wd sz) (ht sz);
            useHeight = (if mode = KeepAspectRatio then rw \<le> w else rw \<ge> w)
        in if useHeight then \<lparr>wd = rw, ht = h\<rparr>
           else \<lparr>wd = w, ht = c_div (w * ht sz) (wd sz)\<rparr>)"

record zoom_settings =
  zoomInFlags :: ZoomMethods
  zoomOutFlags :: ZoomMethods
  imageZoomFactor :: real

text \<open>
  The three helpers below compute in \<^verbatim>\<open>float\<close>: an \<^verbatim>\<open>int\<close> operand is converted to \<^verbatim>\<open>float\<close>,
  every quotient or product is rounded to \<^verbatim>\<open>float\<close>, and the result is truncated on return.
  \<^verbatim>\<open>getHeightByWidth\<close> and \<^verbatim>\<open>getWidthByHeight\<close> return \<^verbatim>\<open>unsigned int\<close>, and their callers pass
  the result on as an \<^verbatim>\<open>int\<close>. When \<^verbatim>\<open>newWidth\<close> is 0 and \<^verbatim>\<open>imgWidth\<close> is not, the C code
  divides \<^verbatim>\<open>imgHeight\<close> by an infinite \<^verbatim>\<open>aspect\<close> and returns 0, which is also what the
  definition gives (a quotient by 0 is 0 in HOL). When \<^verbatim>\<open>aspect\<close> is 0 or NaN, or the quotient
  is \<open>-1\<close> or less, the conversion to \<^verbatim>\<open>unsigned int\<close> is undefined in C and the value of
  the definition has no counterpart.
\<close>

definition getHeightByWidth :: "int \<Rightarrow> int \<Rightarrow> int \<Rightarrow> int" where
  "getHeightByWidth imgWidth imgHeight newWidth =
     (let aspect = to_float (to_float (real_of_int imgWidth) / to_float (real_of_int newWidth))
      in c_trunc (to_float (to_float (real_of_int imgHeight) / aspect)))"

definition getWidthByHeight :: "int \<Rightarrow> int \<Rightarrow> int \<Rightarrow> int" where
  "getWidthByHeight imgHeight imgWidth newHeight =
     (let aspect = to_float (to_float (real_of_int imgHeight) / to_float (real_of_int newHeight))
      in c_trunc (to_float (to_float (real_of_int imgWidth) / aspect)))"

definition calcZoom :: "zoom_settings \<Rightarrow> int \<Rightarrow> int" where
  \<comment> \<open>\<^verbatim>\<open>return size * Settings::imageZoomFactor;\<close> with \<^verbatim>\<open>float imageZoomFactor\<close>: the product
      is rounded to \<^verbatim>\<open>float\<close> before the conversion to \<^verbatim>\<open>int\<close> discards the fraction\<close>
  "calcZoom zs sz = c_trunc (to_float (to_float (real_of_int sz) * imageZoomFactor zs))"

definition zoomIn :: "zoom_settings \<Rightarrow> int \<Rightarrow> int \<Rightarrow> QSize \<Rightarrow> QSize" where
  \<comment> \<open>the first \<^verbatim>\<open>switch\<close> of \<^verbatim>\<open>resizeImage\<close>\<close>
  "zoomIn zs imageViewWidth imageViewHeight imageSize =
     (case zoomInFlags zs of
        Disable \<Rightarrow>
          if wd imageSize \<le> imageViewWidth \<and> ht imageSize \<le> imageViewHeight
          then scale imageSize (calcZoom zs (wd imageSize)) (calcZoom zs (ht imageSize)) KeepAspectRatio
          else imageSize
      | WidthAndHeight \<Rightarrow>
          if wd imageSize \<le> imageViewWidth \<and> ht imageSize \<le> imageViewHeight
          then scale imageSize (calcZoom zs imageViewWidth) (calcZoom zs imageViewHeight) KeepAspectRatio
          else imageSize
      | Width \<Rightarrow>
          if wd imageSize \<le> imageViewWidth
          then scale imageSize (calcZoom zs imageViewWidth)
                 (calcZoom zs (getHeightByWidth (wd imageSize) (ht imageSize) imageViewWidth))
                 KeepAspectRatio
          else imageSize
      | Height \<Rightarrow>
          if ht imageSize \<le> imageViewHeight
          then scale imageSize
                 (calcZoom zs (getWidthByHeight (ht imageSize) (wd imageSize) imageViewHeight))
                 (calcZoom zs imageViewHeight) KeepAspectRatio
          else imageSize
      | Disprop \<Rightarrow>
          let newWidth = (if wd imageSize \<le> imageViewWidth then imageViewWidth else wd imageSize);
              newHeight = (if ht imageSize \<le> imageViewHeight then imageViewHeight else ht imageSize)
          in scale imageSize (calcZoom zs newWidth) (calcZoom zs newHeight) IgnoreAspectRatio)"

definition zoomOut :: "zoom_settings \<Rightarrow> int \<Rightarrow> int \<Rightarrow> QSize \<Rightarrow> QSize" where
  \<comment> \<open>the second \<^verbatim>\<open>switch\<close> of \<^verbatim>\<open>resizeImage\<close>, run on the size the first one left\<close>
  "zoomOut zs imageViewWidth imageViewHeight imageSize =
     (case zoomOutFlags zs of
        Disable \<Rightarrow>
          if wd imageSize \<ge> imageViewWidth \<or> ht imageSize \<ge> imageViewHeight
          then scale imageSize (calcZoom zs (wd imageSize)) (calcZoom zs (ht imageSize)) KeepAspectRatio
          else imageSize
      | WidthAndHeight \<Rightarrow>
          if wd imageSize \<ge> imageViewWidth \<or> ht imageSize \<ge> imageViewHeight
          then scale imageSize (calcZoom zs imageViewWidth) (calcZoom zs imageViewHeight) KeepAspectRatio
          else imageSize
      | Width \<Rightarrow>
          if wd imageSize \<ge> imageViewWidth
          then scale imageSize (calcZoom zs imageViewWidth)
                 (calcZoom zs (getHeightByWidth (wd imageSize) (ht imageSize) imageViewWidth))
                 KeepAspectRatio
          else imageSize
      | Height \<Rightarrow>
          if ht imageSize \<ge> imageViewHeight
          then scale imageSize
                 (calcZoom zs (getWidthByHeight (ht imageSize) (wd imageSize) imageViewHeight))
                 (calcZoom zs imageViewHeight) KeepAspectRatio
          else imageSize
      | Disprop \<Rightarrow>
          let newWidth = (if wd imageSize \<ge> imageViewWidth then imageViewWidth else wd imageSize);
              newHeight = (if ht imageSize \<ge> imageViewHeight then imageViewHeight else ht imageSize)
          in scale imageSize (calcZoom zs newWidth) (calcZoom zs newHeight) IgnoreAspectRatio)"

record viewer =
  busy :: bool
  animation :: "QSize option"
  imageWidget :: "QSize option"
  tempDisableResize :: bool
  viewSize :: QSize

definition resizeImage :: "zoom_settings \<Rightarrow> viewer \<Rightarrow> QSize option" where
  \<comment> \<open>the size handed to \<^verbatim>\<open>setFixedSize\<close>; \<open>None\<close> when the function returns before that.
      \<open>animation\<close> and \<open>imageWidget\<close> hold the size of the current frame or image, if present.\<close>
  "resizeImage zs v =
     (if busy v then None
      else case (case animation v of Some sz \<Rightarrow> Some sz | None \<Rightarrow> imageWidget v) of
        None \<Rightarrow> None
      | Some imageSize \<Rightarrow>
          if isEmpty imageSize then None
          else
            let imageViewWidth = wd (viewSize v);
                imageViewHeight = ht (viewSize v)
            in if tempDisableResize v
               then Some (scale imageSize (wd imageSize) (ht imageSize) KeepAspectRatio)
               else Some (zoomOut zs imageViewWidth imageViewHeight
                            (zoomIn zs imageViewWidth imageViewHeight imageSize)))"

subsection \<open>Concrete inputs\<close>

definition grading_example :: color_settings where
  "grading_example =
     \<lparr>contrastVal = 78, brightVal = 120, hueVal = 40, saturationVal = 150, lightnessVal = 90,
      colorizeEnabled = False, rNegateEnabled = True, gNegateEnabled = False, bNegateEnabled = True,
      redVal = 10, greenVal = -20, blueVal = 30,
      hueRedChannel = False, hueGreenChannel = False, hueBlueChannel = False\<rparr>"

definition one_pixel_image :: "QRgb \<Rightarrow> QImage" where
  "one_pixel_image p = \<lparr>width = 1, height = 1, hasAlphaChannel = True, scanLines = [[p]]\<rparr>"

definition no_edits :: transform_settings where
  "no_edits = \<lparr>rotation = 0, flipH = False, flipV = False,
     cropLeft = 0, cropTop = 0, cropWidth = 0, cropHeight = 0,
     cropLeftPercent = 0, cropTopPercent = 0, cropWidthPercent = 0, cropHeightPercent = 0\<rparr>"

definition crop_too_far :: transform_settings where
  "crop_too_far = no_edits\<lparr>cropLeft := 3\<rparr>"

definition two_by_two :: QImage where
  "two_by_two = \<lparr>width = 2, height = 2, hasAlphaChannel = False,
     scanLines = [[\<lparr>qAlpha = 255, qRed = 1, qGreen = 2, qBlue = 3\<rparr>,
                   \<lparr>qAlpha = 255, qRed = 4, qGreen = 5, qBlue = 6\<rparr>],
                  [\<lparr>qAlpha = 255, qRed = 7, qGreen = 8, qBlue = 9\<rparr>,
                   \<lparr>qAlpha = 255, qRed = 10, qGreen = 11, qBlue = 12\<rparr>]]\<rparr>"

definition identity_settings :: color_settings where
  \<comment> \<open>the parameter values the specification calls neutral\<close>
  "identity_settings =
     \<lparr>contrastVal = 0, brightVal = 100, hueVal = 0, saturationVal = 100, lightnessVal = 100,
      colorizeEnabled = False, rNegateEnabled = False, gNegateEnabled = False, bNegateEnabled = False,
      redVal = 0, greenVal = 0, blueVal = 0,
      hueRedChannel = True, hueGreenChannel = True, hueBlueChannel = True\<rparr>"

definition threshold128 :: "uchar \<Rightarrow> int" where
  \<comment> \<open>what the contrast table computed for \<^verbatim>\<open>contrastVal = 0\<close> does to a channel\<close>
  "threshold128 c = (if 128 \<le> uint c then 255 else 0)"

definition claimed_contrast_value :: "int \<Rightarrow> int \<Rightarrow> real" where
  \<comment> \<open>the table entry as the specification words it, before any conversion to 8 bits\<close>
  "claimed_contrast_value cv i =
     (let t = tan (real_of_int cv / 100) in
      if 128 - 128 * t < real_of_int i \<and> real_of_int i < 128 + 128 * t
      then max 0 (min 255 (real_of_int (i - 128) / t + 128))
      else if real_of_int i \<ge> 128 + 128 * t then 255
      else 0)"




definition zoom_thirteen_tenths :: zoom_settings where
  \<comment> \<open>the multiplier \<^verbatim>\<open>1.3f\<close>\<close>
  "zoom_thirteen_tenths =
     \<lparr>zoomInFlags = Disable, zoomOutFlags = Disable, imageZoomFactor = to_float (13 / 10)\<rparr>"

definition small_in_tight_view :: viewer where
  "small_in_tight_view = \<lparr>busy = False, animation = None, imageWidget = Some \<lparr>wd = 100, ht = 100\<rparr>,
     tempDisableResize = False, viewSize = \<lparr>wd = 130, ht = 130\<rparr>\<rparr>"

definition hue_shift_example :: color_settings where
  \<comment> \<open>the neutral parameters with a hue rotation of 200\<close>
  "hue_shift_example = identity_settings\<lparr>hueVal := 200\<rparr>"

definition keep_destination :: "QRgb \<Rightarrow> QRgb \<Rightarrow> QRgb" where
  "keep_destination src dst = dst"

definition leftover_red :: "int \<Rightarrow> int \<Rightarrow> QRgb" where
  "leftover_red x y = \<lparr>qAlpha = 255, qRed = 255, qGreen = 0, qBlue = 0\<rparr>"

definition leftover_ramp :: "int \<Rightarrow> int \<Rightarrow> QRgb" where
  "leftover_ramp x y = \<lparr>qAlpha = 255, qRed = to_uchar (100 * x), qGreen = 0, qBlue = 0\<rparr>"

section \<open>Properties\<close>

subsection \<open>Machine arithmetic\<close>

lemma to_uchar_uint [simp]: "to_uchar (uint w) = w"
  by (simp add: to_uchar_def)

lemma uint_to_uchar: "uint (to_uchar n) = n mod 256"
  unfolding to_uchar_def by (simp only: uint_word_of_int) simp

lemma uchar_range: "0 \<le> uint (w :: uchar) \<and> uint w \<le> 255"
  using uint_lt2p [of w] by simp


lemma bound0To255_uchar: "bound0To255 (uint (c :: uchar)) = uint c"
  using uchar_range [of c] by (simp add: bound0To255_def)

lemmas hsl_eval = hslToRgb_def hslValue_def foldHue_def ROUND_def c_trunc_def
  MAX_macro_def MIN_macro_def to_uchar_def Let_def

lemma ROUND_nonneg: "0 \<le> x \<Longrightarrow> ROUND x = \<lfloor>x + 1 / 2\<rfloor>"
  by (simp add: ROUND_def c_trunc_def)

lemma ROUND_int: "0 \<le> v \<Longrightarrow> ROUND (real_of_int v) = v"
proof -
  assume "0 \<le> v"
  moreover have "\<lfloor>real_of_int v + 1 / 2\<rfloor> = v" by linarith
  ultimately show ?thesis by (simp add: ROUND_nonneg)
qed

lemma uint_to_uchar_id: "0 \<le> v \<Longrightarrow> v \<le> 255 \<Longrightarrow> uint (to_uchar v) = v"
  by (simp add: uint_to_uchar)

subsection \<open>Floating-point rounding\<close>

lemma rne_error: "\<bar>real_of_int (rne y) - y\<bar> \<le> 1 / 2"
  unfolding rne_def Let_def by (auto; linarith)

lemma rne_of_int [simp]: "rne (real_of_int n) = n"
  by (simp add: rne_def)

lemma rne_eval:
  "rne y = (if y - real_of_int \<lfloor>y\<rfloor> < 1 / 2 then \<lfloor>y\<rfloor>
            else if 1 / 2 < y - real_of_int \<lfloor>y\<rfloor> then \<lfloor>y\<rfloor> + 1
            else if even \<lfloor>y\<rfloor> then \<lfloor>y\<rfloor> else \<lfloor>y\<rfloor> + 1)"
  by (simp add: rne_def Let_def)

lemma powr_powi: "(2 :: real) powr real_of_int k = 2 powi k"
  by (simp add: powr_real_of_int')

lemma floor_log2_iff:
  fixes x :: real
  assumes "0 < x"
  shows "\<lfloor>log 2 x\<rfloor> = k \<longleftrightarrow> 2 powi k \<le> x \<and> x < 2 powi (k + 1)"
  using floor_log_eq_powr_iff [of x 2 k] assms by (simp only: powr_powi)

lemma binade:
  fixes x :: real
  assumes "x \<noteq> 0"
  shows "2 powi \<lfloor>log 2 \<bar>x\<bar>\<rfloor> \<le> \<bar>x\<bar>" and "\<bar>x\<bar> < 2 powi (\<lfloor>log 2 \<bar>x\<bar>\<rfloor> + 1)"
proof -
  have "0 < \<bar>x\<bar>" using assms by simp
  then have "2 powi \<lfloor>log 2 \<bar>x\<bar>\<rfloor> \<le> \<bar>x\<bar> \<and> \<bar>x\<bar> < 2 powi (\<lfloor>log 2 \<bar>x\<bar>\<rfloor> + 1)"
    using floor_log2_iff [of "\<bar>x\<bar>" "\<lfloor>log 2 \<bar>x\<bar>\<rfloor>"] by blast
  then show "2 powi \<lfloor>log 2 \<bar>x\<bar>\<rfloor> \<le> \<bar>x\<bar>" and "\<bar>x\<bar> < 2 powi (\<lfloor>log 2 \<bar>x\<bar>\<rfloor> + 1)"
    by blast+
qed

lemma binade_unique:
  fixes x :: real
  assumes "2 powi k \<le> \<bar>x\<bar>" and "\<bar>x\<bar> < 2 powi (k + 1)"
  shows "\<lfloor>log 2 \<bar>x\<bar>\<rfloor> = k"
proof -
  have "(0 :: real) < 2 powi k" by simp
  then have "0 < \<bar>x\<bar>" using assms(1) by linarith
  then show ?thesis
    using floor_log2_iff [of "\<bar>x\<bar>" k] assms by blast
qed

lemma fround_eval:
  assumes "2 powi k \<le> \<bar>x\<bar>" and "\<bar>x\<bar> < 2 powi (k + 1)"
  shows "fround p x = real_of_int (rne (x / 2 powi (k - int p + 1))) * 2 powi (k - int p + 1)"
proof -
  have "(0 :: real) < 2 powi k" by simp
  then have "0 < \<bar>x\<bar>" using assms(1) by linarith
  then have "x \<noteq> 0" by simp
  then show ?thesis
    by (simp add: fround_def Let_def binade_unique [OF assms])
qed

lemma fround_error: "\<bar>fround p x - x\<bar> \<le> \<bar>x\<bar> / 2 ^ p"
proof (cases "x = 0")
  case True
  then show ?thesis by (simp add: fround_def)
next
  case False
  define E where "E = \<lfloor>log 2 \<bar>x\<bar>\<rfloor>"
  define e where "e = E - int p + 1"
  define s :: real where "s = 2 powi e"
  have sp: "0 < s" by (simp add: s_def)
  have fr: "fround p x = real_of_int (rne (x / s)) * s"
    using False by (simp add: fround_def Let_def E_def e_def s_def)
  have "fround p x - x = (real_of_int (rne (x / s)) - x / s) * s"
    using sp by (simp add: fr algebra_simps)
  then have "\<bar>fround p x - x\<bar> = \<bar>real_of_int (rne (x / s)) - x / s\<bar> * s"
    using sp by (simp add: abs_mult)
  also have "\<dots> \<le> 1 / 2 * s"
    using sp rne_error [of "x / s"] by (intro mult_right_mono) simp_all
  also have "1 / 2 * s = 2 powi E / 2 ^ p"
    by (simp add: s_def e_def power_int_add power_int_diff)
  also have "\<dots> \<le> \<bar>x\<bar> / 2 ^ p"
    using binade(1) [OF False] by (intro divide_right_mono) (simp_all add: E_def)
  finally show ?thesis .
qed

lemma fround_exact:
  fixes m j :: int
  assumes "\<bar>m\<bar> < 2 ^ p"
  shows "fround p (real_of_int m * 2 powi j) = real_of_int m * 2 powi j"
proof (cases "m = 0")
  case True
  then show ?thesis by (simp add: fround_def)
next
  case False
  define x :: real where "x = real_of_int m * 2 powi j"
  define E where "E = \<lfloor>log 2 \<bar>x\<bar>\<rfloor>"
  define e where "e = E - int p + 1"
  have x0: "x \<noteq> 0" using False by (simp add: x_def)
  have "real_of_int \<bar>m\<bar> < 2 ^ p" using assms by (metis of_int_less_iff of_int_numeral of_int_power)
  then have "\<bar>x\<bar> < 2 ^ p * 2 powi j"
    by (simp add: x_def abs_mult)
  then have "\<bar>x\<bar> < 2 powi (int p + j)" by (simp add: power_int_add)
  moreover have "2 powi E \<le> \<bar>x\<bar>" using binade(1) [OF x0] by (simp add: E_def)
  ultimately have "(2 :: real) powi E < 2 powi (int p + j)" by linarith
  then have "E < int p + j"
    using power_int_increasing [of "int p + j" E "2 :: real"] by (cases "E < int p + j") simp_all
  then have ej: "e \<le> j" by (simp add: e_def)
  define n where "n = nat (j - e)"
  have "x / 2 powi e = real_of_int m * 2 powi (j - e)"
    by (simp add: x_def power_int_diff)
  also have "\<dots> = real_of_int (m * 2 ^ n)"
    using ej by (simp add: n_def power_int_def)
  finally have q: "x / 2 powi e = real_of_int (m * 2 ^ n)" .
  have "fround p x = real_of_int (rne (x / 2 powi e)) * 2 powi e"
    using x0 by (simp add: fround_def Let_def E_def e_def)
  also have "\<dots> = (x / 2 powi e) * 2 powi e" unfolding q by (simp only: rne_of_int)
  also have "\<dots> = x" by simp
  finally show ?thesis by (simp only: x_def)
qed

lemma fround_int: "\<bar>n\<bar> < 2 ^ p \<Longrightarrow> fround p (real_of_int n) = real_of_int n"
  using fround_exact [of n p 0] by simp

lemma fround_half: "\<bar>n\<bar> < 2 ^ p \<Longrightarrow> fround p (real_of_int n / 2) = real_of_int n / 2"
  using fround_exact [of n p "- 1"] by simp

lemma fround_nonneg: "0 \<le> x \<Longrightarrow> 0 \<le> fround p x"
proof -
  assume x: "0 \<le> x"
  have "(1 :: real) \<le> 2 ^ p" by simp
  then have "\<bar>x\<bar> / 2 ^ p \<le> \<bar>x\<bar> / 1" by (intro divide_left_mono) simp_all
  then show ?thesis using fround_error [of p x] x by linarith
qed

lemma fround_neg:
  assumes "x < 0" and "0 < p"
  shows "fround p x < 0"
proof -
  have "(2 :: real) ^ 1 \<le> 2 ^ p" using assms(2) by (intro power_increasing) simp_all
  then have "\<bar>x\<bar> / 2 ^ p \<le> \<bar>x\<bar> / 2" by (intro divide_left_mono) simp_all
  then show ?thesis using fround_error [of p x] assms(1) by linarith
qed

lemma fround_pos:
  assumes "0 < x" and "0 < p"
  shows "0 < fround p x"
proof -
  have "(2 :: real) ^ 1 \<le> 2 ^ p" using assms(2) by (intro power_increasing) simp_all
  then have "\<bar>x\<bar> / 2 ^ p \<le> \<bar>x\<bar> / 2" by (intro divide_left_mono) simp_all
  then show ?thesis using fround_error [of p x] assms(1) by linarith
qed

lemma to_float_int: "\<bar>n\<bar> < 16777216 \<Longrightarrow> to_float (real_of_int n) = real_of_int n"
  unfolding to_float_def by (rule fround_int) simp



lemma to_double_int: "\<bar>n\<bar> < 9007199254740992 \<Longrightarrow> to_double (real_of_int n) = real_of_int n"
  unfolding to_double_def by (rule fround_int) simp

lemma to_double_half: "\<bar>n\<bar> < 9007199254740992 \<Longrightarrow> to_double (real_of_int n / 2) = real_of_int n / 2"
  unfolding to_double_def by (rule fround_half) simp

lemma to_double_nonneg: "0 \<le> x \<Longrightarrow> 0 \<le> to_double x"
  unfolding to_double_def by (rule fround_nonneg)

lemma to_double_neg: "x < 0 \<Longrightarrow> to_double x < 0"
  unfolding to_double_def by (rule fround_neg) simp_all

lemma to_double_pos: "0 < x \<Longrightarrow> 0 < to_double x"
  unfolding to_double_def by (rule fround_pos) simp_all

lemma to_double_near:
  assumes "\<bar>x\<bar> \<le> 512"
  shows "\<bar>to_double x - x\<bar> \<le> 1 / 10000000000000"
proof -
  have "\<bar>to_double x - x\<bar> \<le> \<bar>x\<bar> / 2 ^ 53"
    unfolding to_double_def by (rule fround_error)
  also have "\<dots> \<le> 512 / 2 ^ 53" using assms by (intro divide_right_mono) simp_all
  also have "\<dots> \<le> 1 / 10000000000000" by simp
  finally show ?thesis .
qed

lemma floor_rational_stable:
  fixes N M :: int and y :: real
  assumes M: "0 < M" and nd: "\<not> M dvd N"
    and y: "\<bar>y - real_of_int N / real_of_int M\<bar> < 1 / real_of_int M"
  shows "\<lfloor>y\<rfloor> = N div M"
proof -
  define q where "q = N div M"
  define r where "r = N mod M"
  have N: "N = q * M + r" by (simp add: q_def r_def)
  have r0: "0 \<le> r" and r1: "r < M" using M by (simp_all add: r_def)
  have "r \<noteq> 0" using nd by (simp add: r_def dvd_eq_mod_eq_0)
  then have r2: "1 \<le> r" using r0 by simp
  have Mp: "0 < real_of_int M" using M by simp
  have x: "real_of_int N / real_of_int M = real_of_int q + real_of_int r / real_of_int M"
    using Mp by (simp add: N field_simps)
  have lo: "1 / real_of_int M \<le> real_of_int r / real_of_int M"
    using r2 Mp by (intro divide_right_mono) simp_all
  have "real_of_int r \<le> real_of_int M - 1" using r1 by linarith
  then have "real_of_int r / real_of_int M \<le> (real_of_int M - 1) / real_of_int M"
    using Mp by (intro divide_right_mono) simp_all
  also have "\<dots> = 1 - 1 / real_of_int M" using Mp by (simp add: field_simps)
  finally have hi: "real_of_int r / real_of_int M \<le> 1 - 1 / real_of_int M" .
  have "real_of_int q \<le> y" "y < real_of_int q + 1"
    using y x lo hi by linarith+
  then have "\<lfloor>y\<rfloor> = q" by linarith
  then show ?thesis by (simp only: q_def)
qed

lemma floor_near_tie:
  fixes N M :: int and x y :: real
  assumes M: "0 < M" and x: "x + 1 / 2 = real_of_int N / real_of_int M"
    and y: "\<bar>y - (x + 1 / 2)\<bar> < 1 / real_of_int M"
  shows "\<bar>real_of_int \<lfloor>y\<rfloor> - x\<bar> \<le> 1 / 2"
proof (cases "M dvd N")
  case True
  then obtain k where k: "N = M * k" by (auto simp: dvd_def)
  have xk: "x + 1 / 2 = real_of_int k" using M by (simp add: x k)
  have "1 \<le> real_of_int M" using M by simp
  then have "1 / real_of_int M \<le> 1" by simp
  then have "\<bar>y - real_of_int k\<bar> < 1" using y xk by linarith
  then have "\<lfloor>y\<rfloor> = k - 1 \<or> \<lfloor>y\<rfloor> = k" by linarith
  then show ?thesis using xk by auto
next
  case False
  have "\<lfloor>y\<rfloor> = N div M"
    using M False y unfolding x by (rule floor_rational_stable)
  also have "\<dots> = \<lfloor>x + 1 / 2\<rfloor>" unfolding x by (simp add: floor_divide_of_int_eq)
  finally have "\<lfloor>y\<rfloor> = \<lfloor>x + 1 / 2\<rfloor>" .
  then show ?thesis by linarith
qed

lemma ROUND_double_half_integer:
  assumes "0 \<le> n" and "n < 1000000"
  shows "to_double (real_of_int n / 2) = real_of_int n / 2"
    and "ROUND_double (real_of_int n / 2) = ROUND (real_of_int n / 2)"
proof -
  show "to_double (real_of_int n / 2) = real_of_int n / 2"
    using assms by (intro to_double_half) simp
  have "real_of_int n / 2 + 1 / 2 = real_of_int (n + 1) / 2" by simp
  moreover have "to_double (real_of_int (n + 1) / 2) = real_of_int (n + 1) / 2"
    using assms by (intro to_double_half) simp
  ultimately show "ROUND_double (real_of_int n / 2) = ROUND (real_of_int n / 2)"
    by (simp only: ROUND_double_def ROUND_def)
qed

lemma ROUND_double_quotient:
  fixes N M :: int
  assumes N: "0 \<le> N" and M: "0 < M" "M \<le> 510" and q: "N \<le> 255 * M"
  shows "ROUND_double (to_double (real_of_int N / real_of_int M)) = ROUND (real_of_int N / real_of_int M)"
proof -
  define x where "x = real_of_int N / real_of_int M"
  define xd where "xd = to_double x"
  define y where "y = to_double (xd + 1 / 2)"
  have Mp: "0 < real_of_int M" using M by simp
  have x0: "0 \<le> x" using N Mp by (simp add: x_def)
  have "real_of_int N \<le> 255 * real_of_int M" using q by linarith
  then have x1: "x \<le> 255" using Mp by (simp add: x_def field_simps)
  have xd0: "0 \<le> xd" unfolding xd_def using x0 by (rule to_double_nonneg)
  have e1: "\<bar>xd - x\<bar> \<le> 1 / 10000000000000" unfolding xd_def using x0 x1 by (intro to_double_near) simp
  have "\<bar>xd + 1 / 2\<bar> \<le> 512" using e1 x0 x1 by linarith
  then have e2: "\<bar>y - (xd + 1 / 2)\<bar> \<le> 1 / 10000000000000" unfolding y_def by (rule to_double_near)
  have y0: "0 \<le> y" unfolding y_def using xd0 by (intro to_double_nonneg) simp
  have half: "x + 1 / 2 = real_of_int (2 * N + M) / real_of_int (2 * M)"
    using Mp by (simp add: x_def field_simps)
  have fx: "\<lfloor>x + 1 / 2\<rfloor> = (2 * N + M) div (2 * M)"
    unfolding half by (simp only: floor_divide_of_int_eq)
  have "\<lfloor>y\<rfloor> = (2 * N + M) div (2 * M)"
  proof (cases "2 * M dvd 2 * N + M")
    case True
    then obtain k where k: "2 * N + M = 2 * M * k" by (auto simp: dvd_def)
    have xk: "x + 1 / 2 = real_of_int k" using Mp unfolding half k by simp
    then have "x = real_of_int (2 * k - 1) / 2" by simp
    moreover have "\<bar>2 * k - 1\<bar> < 9007199254740992"
    proof -
      have "real_of_int k \<le> 256" "0 \<le> real_of_int k" using xk x0 x1 by linarith+
      then have "k \<le> 256" "0 \<le> k" by linarith+
      then show ?thesis by simp
    qed
    ultimately have "xd = x" unfolding xd_def by (simp only: to_double_half)
    then have "xd + 1 / 2 = real_of_int k" using xk by simp
    moreover have "\<bar>k\<bar> < 9007199254740992"
    proof -
      have "real_of_int k \<le> 256" "0 \<le> real_of_int k" using xk x0 x1 by linarith+
      then have "k \<le> 256" "0 \<le> k" by linarith+
      then show ?thesis by simp
    qed
    ultimately have "y = real_of_int k" unfolding y_def by (simp only: to_double_int)
    then have "\<lfloor>y\<rfloor> = k" by simp
    moreover have "(2 * N + M) div (2 * M) = k" using M by (simp add: k)
    ultimately show ?thesis by simp
  next
    case False
    have "real_of_int (2 * M) \<le> 1020" using M by simp
    then have "1 / 1020 \<le> 1 / real_of_int (2 * M)"
      using Mp by (intro divide_left_mono) simp_all
    moreover have "\<bar>y - (x + 1 / 2)\<bar> \<le> 2 / 10000000000000" using e1 e2 by linarith
    ultimately have "\<bar>y - real_of_int (2 * N + M) / real_of_int (2 * M)\<bar> < 1 / real_of_int (2 * M)"
      unfolding half [symmetric] by linarith
    then show ?thesis using M False by (intro floor_rational_stable) simp_all
  qed
  then have "\<lfloor>y\<rfloor> = \<lfloor>x + 1 / 2\<rfloor>" by (simp only: fx)
  moreover have "ROUND_double xd = \<lfloor>y\<rfloor>" using y0 by (simp add: ROUND_double_def c_trunc_def y_def)
  moreover have "ROUND x = \<lfloor>x + 1 / 2\<rfloor>" using x0 by (rule ROUND_nonneg)
  ultimately show ?thesis by (simp only: xd_def x_def)
qed

lemma ROUND_double_0: "ROUND_double 0 = 0"
proof -
  have h: "to_double (1 / 2) = 1 / 2" using to_double_half [of 1] by simp
  show ?thesis by (simp add: ROUND_double_def c_trunc_def h)
qed

subsection \<open>Channel enable flags\<close>

lemma gradePixel_disabled:
  "(\<not> hueRedChannel cs \<longrightarrow> qRed (gradePixel cs ct bt ha px) = qRed px) \<and>
   (\<not> hueGreenChannel cs \<longrightarrow> qGreen (gradePixel cs ct bt ha px) = qGreen px) \<and>
   (\<not> hueBlueChannel cs \<longrightarrow> qBlue (gradePixel cs ct bt ha px) = qBlue px)"
  by (simp add: gradePixel_def Let_def qRgba_def qRgb_def split: prod.splits)

lemma colorize_nth:
  "y < length (scanLines img) \<Longrightarrow> x < length (scanLines img ! y) \<Longrightarrow>
   scanLines (colorize cs img) ! y ! x =
     gradePixel cs (contrastTransform (contrastVal cs)) (brightTransform (brightVal cs))
       (hasAlphaChannel img) (scanLines img ! y ! x)"
  by (simp add: colorize_def Let_def)

text \<open>
  C8. For the pixel in column \<open>x\<close> of scan line \<open>y\<close> and each of the channels red, green and
  blue: when the channel's enable flag is off, the grading stage writes back the value the
  channel had before grading, whatever the other grading parameters are.
\<close>

theorem channel_disabled_keeps_original:
  assumes "y < length (scanLines img)" and "x < length (scanLines img ! y)"
  shows "(\<not> hueRedChannel cs \<longrightarrow>
            qRed (scanLines (colorize cs img) ! y ! x) = qRed (scanLines img ! y ! x)) \<and>
         (\<not> hueGreenChannel cs \<longrightarrow>
            qGreen (scanLines (colorize cs img) ! y ! x) = qGreen (scanLines img ! y ! x)) \<and>
         (\<not> hueBlueChannel cs \<longrightarrow>
            qBlue (scanLines (colorize cs img) ! y ! x) = qBlue (scanLines img ! y ! x))"
  using assms gradePixel_disabled by (simp add: colorize_nth)

theorem channel_disabled_keeps_original_witness:
  "qRed (scanLines (colorize grading_example
           (one_pixel_image \<lparr>qAlpha = 200, qRed = 10, qGreen = 20, qBlue = 30\<rparr>)) ! 0 ! 0) = 10 \<and>
   qGreen (scanLines (colorize grading_example
           (one_pixel_image \<lparr>qAlpha = 200, qRed = 10, qGreen = 20, qBlue = 30\<rparr>)) ! 0 ! 0) = 20 \<and>
   qBlue (scanLines (colorize grading_example
           (one_pixel_image \<lparr>qAlpha = 200, qRed = 10, qGreen = 20, qBlue = 30\<rparr>)) ! 0 ! 0) = 30"
  using channel_disabled_keeps_original
    [of 0 "one_pixel_image \<lparr>qAlpha = 200, qRed = 10, qGreen = 20, qBlue = 30\<rparr>" 0 grading_example]
  by (simp add: one_pixel_image_def grading_example_def)

subsection \<open>Geometric transform\<close>

text \<open>
  C4. With rotation 0, both flips off and all eight crop fields 0, the geometric transform
  returns its input image unchanged.
\<close>

theorem transform_without_edits_is_identity:
  assumes "rotation ts = 0" and "\<not> flipH ts" and "\<not> flipV ts"
    and "cropLeft ts = 0" and "cropTop ts = 0" and "cropWidth ts = 0" and "cropHeight ts = 0"
    and "cropLeftPercent ts = 0" and "cropTopPercent ts = 0"
    and "cropWidthPercent ts = 0" and "cropHeightPercent ts = 0"
  shows "transform transformed ts img = img"
  using assms by (simp add: transform_def rotateFlip_def cropRect_def qFuzzyCompare_def Let_def)


theorem transform_without_edits_is_identity_witness:
  "transform (\<lambda>angle img. nullImage) no_edits two_by_two = two_by_two"
  using transform_without_edits_is_identity [of no_edits "\<lambda>angle img. nullImage" two_by_two]
  by (simp add: no_edits_def)

text \<open>
  C9, as the code has it. \<^verbatim>\<open>transform\<close> validates nothing: a crop rectangle whose width or
  height is not positive goes to \<^verbatim>\<open>copy\<close>, and the stage returns what \<^verbatim>\<open>copy\<close> gives: the null
  image, or the whole (rotated and flipped) image when width and height are both exactly 0.
\<close>

theorem degenerate_crop_gives_null_image:
  assumes "cropRect ts (rotateFlip transformed ts img) = Some (x, y, w, h)"
    and "w \<le> 0 \<or> h \<le> 0"
  shows "transform transformed ts img =
           (if w = 0 \<and> h = 0 then rotateFlip transformed ts img else nullImage)"
  using assms by (auto simp add: transform_def copy_rect_def Let_def)

theorem degenerate_crop_gives_null_image_witness:
  "transform (\<lambda>angle img. img) crop_too_far two_by_two = nullImage"
  using degenerate_crop_gives_null_image [of crop_too_far "\<lambda>angle img. img" two_by_two 3 0 "- 1" 2]
  by (simp add: rotateFlip_def cropRect_def crop_too_far_def no_edits_def
      two_by_two_def qFuzzyCompare_def Let_def)

text \<open>
  C9 as stated fails: cropping 3 columns from the left of a 2 \<open>\<times>\<close> 2 image gives a rectangle
  of width -1, and the stage returns the null image instead of refusing the call.
\<close>

theorem degenerate_crop_counterexample:
  "cropRect crop_too_far two_by_two = Some (3, 0, - 1, 2) \<and>
   transform (\<lambda>angle img. img) crop_too_far two_by_two = nullImage"
  by (simp add: transform_def rotateFlip_def cropRect_def crop_too_far_def no_edits_def
      two_by_two_def qFuzzyCompare_def copy_rect_def Let_def)

subsection \<open>Zoom fit\<close>











text \<open>
  The rounding to \<^verbatim>\<open>float\<close> is visible in the results. With the multiplier \<^verbatim>\<open>0.7f\<close>, which is
  a little below 7/10, \<open>calcZoom 100\<close> is 70, not 69 (lemma \<open>calcZoom_seven_tenths\<close>). With
  \<^verbatim>\<open>1.3f\<close> a 100 \<open>\<times>\<close> 100 image reaches a 130 \<open>\<times>\<close> 130 viewport in the zoom-in step and is
  scaled once more by the zoom-out step. \<^verbatim>\<open>getHeightByWidth(100, 100, 700)\<close> is 699.
\<close>

lemma zoom_reaches_view:
  "calcZoom zoom_thirteen_tenths 100 = 130 \<and>
   resizeImage zoom_thirteen_tenths small_in_tight_view = Some \<lparr>wd = 169, ht = 169\<rparr>"
proof -
  have i: "to_float 100 = 100" "to_float 130 = 130"
    using to_float_int [of 100] to_float_int [of 130] by simp_all
  have z: "to_float (13 / 10) = 5452595 / 4194304"
    unfolding to_float_def
    by (subst fround_eval [of 0]) (simp_all add: rne_eval power_int_minus)
  have a: "to_float (136314875 / 1048576) = 130"
    unfolding to_float_def
    by (subst fround_eval [of 7]) (simp_all add: rne_eval power_int_minus)
  have b: "to_float (354418675 / 2097152) = 169"
    unfolding to_float_def
    by (subst fround_eval [of 7]) (simp_all add: rne_eval power_int_minus)
  have c: "calcZoom zoom_thirteen_tenths 100 = 130" "calcZoom zoom_thirteen_tenths 130 = 169"
    by (simp_all add: calcZoom_def zoom_thirteen_tenths_def i z a b c_trunc_def)
  have "zoomInFlags zoom_thirteen_tenths = Disable" "zoomOutFlags zoom_thirteen_tenths = Disable"
    by (simp_all add: zoom_thirteen_tenths_def)
  then show ?thesis
    by (simp add: c resizeImage_def zoomIn_def zoomOut_def small_in_tight_view_def
        isEmpty_def scale_def c_div_def Let_def)
qed

lemma getHeightByWidth_rounds: "getHeightByWidth 100 100 700 = 699"
proof -
  have i: "to_float 100 = 100" "to_float 700 = 700"
    using to_float_int [of 100] to_float_int [of 700] by simp_all
  have a: "to_float (1 / 7) = 9586981 / 67108864"
    unfolding to_float_def
    by (subst fround_eval [of "- 3"]) (simp_all add: rne_eval power_int_minus)
  have q: "to_float (6710886400 / 9586981) = 11468799 / 16384"
    unfolding to_float_def
    by (subst fround_eval [of 9]) (simp_all add: rne_eval power_int_minus)
  show ?thesis
    by (simp add: getHeightByWidth_def Let_def i a q c_trunc_def)
qed

lemma getWidthByHeight_rounds: "getWidthByHeight 100 100 700 = 699"
proof -
  have i: "to_float 100 = 100" "to_float 700 = 700"
    using to_float_int [of 100] to_float_int [of 700] by simp_all
  have a: "to_float (1 / 7) = 9586981 / 67108864"
    unfolding to_float_def
    by (subst fround_eval [of "- 3"]) (simp_all add: rne_eval power_int_minus)
  have q: "to_float (6710886400 / 9586981) = 11468799 / 16384"
    unfolding to_float_def
    by (subst fround_eval [of 9]) (simp_all add: rne_eval power_int_minus)
  show ?thesis
    by (simp add: getWidthByHeight_def Let_def i a q c_trunc_def)
qed

subsection \<open>Lookup tables\<close>

lemma contrastTransform_nth:
  "0 \<le> i \<Longrightarrow> i \<le> 255 \<Longrightarrow> contrastTransform cv ! nat i = contrastEntry cv i"
  by (simp add: contrastTransform_def nth_upto)

lemma brightTransform_nth:
  "0 \<le> i \<Longrightarrow> i \<le> 255 \<Longrightarrow> brightTransform bv ! nat i = brightEntry bv i"
  by (simp add: brightTransform_def nth_upto)

lemma contrastEntry_0: "contrastEntry 0 i = (if 128 \<le> i then 255 else 0)"
  by (simp add: contrastEntry_def c_trunc_def)

lemma brightness_100: "to_float (to_double 1) = 1"
  using to_double_int [of 1] to_float_int [of 1] by simp

lemma brightEntry_100:
  assumes "0 \<le> i" and "i \<le> 255"
  shows "brightEntry 100 i = to_uchar i"
proof -
  have "(real_of_int i / 255) powr 1 = real_of_int i / 255"
    using assms by (simp add: powr_one)
  moreover have "\<lfloor>real_of_int i + 1 / 2\<rfloor> = i" by linarith
  ultimately show ?thesis
    using assms by (simp add: brightEntry_def brightness_100 c_trunc_def MIN_macro_def)
qed

lemma brightEntry_0: "brightEntry 0 i = (if i = 255 then 255 else 0)"
  by (simp add: brightEntry_def to_double_def to_float_def fround_def c_trunc_def MIN_macro_def
      to_uchar_def)

lemma contrastEntry_upper:
  assumes "0 < tan (real_of_int cv / 100)"
    and "128 + 128 * tan (real_of_int cv / 100) < real_of_int i + 1"
  shows "contrastEntry cv i = 255"
proof -
  let ?U = "128 + 128 * tan (real_of_int cv / 100)"
  have "c_trunc ?U = \<lfloor>?U\<rfloor>" using assms(1) by (simp add: c_trunc_def)
  moreover have "\<lfloor>?U\<rfloor> \<le> i" using assms(2) by linarith
  ultimately show ?thesis by (simp add: contrastEntry_def Let_def)
qed

lemma contrastEntry_lower:
  assumes "0 < tan (real_of_int cv / 100)" and "0 \<le> i"
    and "real_of_int i \<le> 128 - 128 * tan (real_of_int cv / 100)"
  shows "contrastEntry cv i = 0"
proof -
  let ?t = "tan (real_of_int cv / 100)"
  let ?U = "128 + 128 * ?t" and ?L = "128 - 128 * ?t"
  have "0 \<le> ?L" using assms(2,3) by linarith
  then have "c_trunc ?L = \<lfloor>?L\<rfloor>" by (simp add: c_trunc_def)
  moreover have "i \<le> \<lfloor>?L\<rfloor>" using assms(3) by linarith
  moreover have "c_trunc ?U = \<lfloor>?U\<rfloor>" using assms(1) by (simp add: c_trunc_def)
  moreover have "i < \<lfloor>?U\<rfloor>"
  proof -
    have "real_of_int i < 128" using assms(1,3) by linarith
    then have "i < 128" by linarith
    moreover have "128 \<le> \<lfloor>?U\<rfloor>" using assms(1) by linarith
    ultimately show ?thesis by linarith
  qed
  ultimately show ?thesis by (simp add: contrastEntry_def Let_def)
qed

lemma contrastEntry_middle:
  assumes tpos: "0 < tan (real_of_int cv / 100)" and "0 \<le> i"
    and lo: "128 - 128 * tan (real_of_int cv / 100) < real_of_int i"
    and hi: "real_of_int i + 1 \<le> 128 + 128 * tan (real_of_int cv / 100)"
  shows "uint (contrastEntry cv i) = \<lfloor>real_of_int (i - 128) / tan (real_of_int cv / 100) + 128\<rfloor> \<and>
         0 \<le> \<lfloor>real_of_int (i - 128) / tan (real_of_int cv / 100) + 128\<rfloor> \<and>
         \<lfloor>real_of_int (i - 128) / tan (real_of_int cv / 100) + 128\<rfloor> \<le> 255"
proof -
  let ?t = "tan (real_of_int cv / 100)"
  let ?U = "128 + 128 * ?t" and ?L = "128 - 128 * ?t"
  let ?v = "real_of_int (i - 128) / ?t + 128"
  have "- 128 * ?t < real_of_int (i - 128)" using lo by simp
  then have "- 128 < real_of_int (i - 128) / ?t"
    using tpos by (simp add: pos_less_divide_eq)
  then have vpos: "0 < ?v" by linarith
  have "real_of_int (i - 128) < 128 * ?t" using hi by simp
  then have "real_of_int (i - 128) / ?t < 128"
    using tpos by (simp add: pos_divide_less_eq)
  then have vlt: "?v < 256" by linarith
  have fl0: "0 \<le> \<lfloor>?v\<rfloor>" using vpos by linarith
  have fl255: "\<lfloor>?v\<rfloor> \<le> 255" using vlt by linarith
  have trv: "c_trunc ?v = \<lfloor>?v\<rfloor>" using vpos by (simp add: c_trunc_def)
  have "uint (to_uchar (c_trunc ?v)) = c_trunc ?v mod 256" by (rule uint_to_uchar)
  also have "\<dots> = \<lfloor>?v\<rfloor> mod 256" by (simp only: trv)
  also have "\<dots> = \<lfloor>?v\<rfloor>" using fl0 fl255 by (intro mod_pos_pos_trivial) linarith+
  finally have mid: "uint (to_uchar (c_trunc ?v)) = \<lfloor>?v\<rfloor>" .
  have trU: "c_trunc ?U = \<lfloor>?U\<rfloor>" using tpos by (simp add: c_trunc_def)
  have iU: "i < \<lfloor>?U\<rfloor>" using hi by linarith
  show ?thesis
  proof (cases "c_trunc ?L < i")
    case True
    then have "contrastEntry cv i = to_uchar (c_trunc ?v)"
      using iU trU by (simp add: contrastEntry_def Let_def)
    then show ?thesis using mid fl0 fl255 by simp
  next
    case False
    have Lneg: "?L < 0"
    proof (rule ccontr)
      assume "\<not> ?L < 0"
      then have "c_trunc ?L = \<lfloor>?L\<rfloor>" by (simp add: c_trunc_def)
      moreover have "\<lfloor>?L\<rfloor> < i" using lo by linarith
      ultimately show False using False by simp
    qed
    then have "c_trunc ?L = \<lceil>?L\<rceil>" by (simp add: c_trunc_def)
    then have "i \<le> \<lceil>?L\<rceil>" using False by simp
    moreover have "\<lceil>?L\<rceil> \<le> 0" using Lneg by linarith
    ultimately have i0: "i = 0" and "0 \<le> \<lceil>?L\<rceil>" using \<open>0 \<le> i\<close> by linarith+
    then have "- 1 < ?L" by linarith
    then have t129: "128 * ?t < 129" by linarith
    have "127 * ?t < 128" using t129 tpos by linarith
    then have "127 < 128 / ?t" using tpos by (simp add: pos_less_divide_eq)
    then have "?v < 1" using i0 by simp
    then have "\<lfloor>?v\<rfloor> = 0" using vpos by linarith
    moreover have "contrastEntry cv i = 0"
      using False iU trU i0 by (simp add: contrastEntry_def Let_def)
    ultimately show ?thesis by simp
  qed
qed

lemma tan_small_bounds:
  "1 / 127 < tan (1 / 100 :: real) \<and> tan (1 / 100 :: real) < 1 / 64"
proof -
  let ?x = "1 / 100 :: real"
  have "\<bar>sin ?x - (\<Sum>m<3. sin_coeff m * ?x ^ m)\<bar> \<le> inverse (fact 3) * \<bar>?x\<bar> ^ 3"
    by (rule Maclaurin_sin_bound)
  then have "\<bar>sin ?x - ?x\<bar> \<le> ?x ^ 3 / 6"
    by (simp add: sin_coeff_def numeral_eq_Suc fact_numeral)
  then have sinlo: "?x - ?x ^ 3 / 6 \<le> sin ?x" by linarith
  have sinhi: "sin ?x \<le> ?x" by (rule sin_x_le_x) simp
  obtain t where "cos ?x = (\<Sum>m<2. cos_coeff m * ?x ^ m) + cos (t + 1 / 2 * real 2 * pi) / fact 2 * ?x ^ 2"
    using Maclaurin_cos_expansion2 [of ?x 2] by auto
  then have "cos ?x = 1 - cos t / 2 * ?x ^ 2"
    by (simp add: cos_coeff_def numeral_eq_Suc)
  then have "cos ?x * 20000 = 20000 - cos t"
    by (simp add: field_simps power2_eq_square)
  with cos_le_one [of t] have "19999 \<le> cos ?x * 20000" by linarith
  then have coslo: "1 - ?x ^ 2 / 2 \<le> cos ?x"
    by (simp add: power2_eq_square)
  have coshi: "cos ?x \<le> 1" by simp
  have cospos: "0 < cos ?x" using coslo by (simp add: power2_eq_square) 
  have tn: "tan ?x = sin ?x / cos ?x" by (simp add: tan_def)
  have sinpos: "0 < sin ?x" using sinlo by (simp add: power3_eq_cube)
  have "sin ?x \<le> sin ?x / cos ?x"
    using sinpos cospos coshi by (simp add: pos_le_divide_eq mult_left_le)
  then have lower: "1 / 127 < tan ?x" using sinlo tn by (simp add: power3_eq_cube)
  have "sin ?x / cos ?x \<le> ?x / (1 - ?x ^ 2 / 2)"
    using sinhi coslo sinpos by (intro frac_le) (simp_all add: power2_eq_square)
  then have upper: "tan ?x < 1 / 64" using tn by (simp add: power2_eq_square)
  show ?thesis using lower upper by simp
qed


text \<open>
  C3, as the code has it. For a table index \<open>i\<close> in \<open>[0, 255]\<close> and \<open>t = tan (contrastVal / 100) > 0\<close>:
  the entry is \<open>\<lfloor>(i - 128) / t + 128\<rfloor>\<close>, a value in \<open>[0, 255]\<close>, when
  \<open>128 - 128 t < i \<le> 127 + 128 t\<close>; it is 255 when \<open>i > 127 + 128 t\<close>; and it is 0 when
  \<open>i \<le> 128 - 128 t\<close>. (The code compares \<open>i\<close> with the bounds truncated to integers.)
\<close>

theorem contrast_table_entries:
  assumes "0 \<le> i" and "i \<le> 255" and "t = tan (real_of_int cv / 100)" and "0 < t"
  shows "(128 - 128 * t < real_of_int i \<and> real_of_int i + 1 \<le> 128 + 128 * t \<longrightarrow>
            uint (contrastTransform cv ! nat i) = \<lfloor>real_of_int (i - 128) / t + 128\<rfloor> \<and>
            0 \<le> \<lfloor>real_of_int (i - 128) / t + 128\<rfloor> \<and>
            \<lfloor>real_of_int (i - 128) / t + 128\<rfloor> \<le> 255) \<and>
         (128 + 128 * t < real_of_int i + 1 \<longrightarrow> contrastTransform cv ! nat i = 255) \<and>
         (real_of_int i \<le> 128 - 128 * t \<longrightarrow> contrastTransform cv ! nat i = 0)"
  using assms contrastEntry_middle [of cv i] contrastEntry_upper [of cv i] contrastEntry_lower [of cv i]
  by (simp add: contrastTransform_nth)

theorem contrast_table_entries_witness:
  "contrastTransform 1 ! 255 = 255 \<and> contrastTransform 1 ! 0 = 0"
  using contrast_table_entries [of 255 "tan (1 / 100)" 1]
    contrast_table_entries [of 0 "tan (1 / 100)" 1] tan_small_bounds
  by simp

text \<open>
  C3 as stated fails for \<^verbatim>\<open>contrastVal = 1\<close> at index 129: \<open>128 + 128 \<cdot> tan 0.01\<close> is about
  129.28, so 129 lies strictly between the bounds and the stated value is
  \<open>1 / tan 0.01 + 128\<close>, about 228; the table holds 255 there.
\<close>

theorem contrast_table_counterexample:
  "0 < tan (1 / 100 :: real) \<and>
   claimed_contrast_value 1 129 < 255 \<and>
   uint (contrastTransform 1 ! 129) = 255"
proof -
  let ?t = "tan (1 / 100 :: real)"
  have b: "1 / 127 < ?t" "?t < 1 / 64" using tan_small_bounds by simp_all
  then have tpos: "0 < ?t" by linarith
  have "1 / ?t < 127" using b(1) tpos by (simp add: field_simps)
  then have "claimed_contrast_value 1 129 < 255"
    using b tpos by (simp add: claimed_contrast_value_def Let_def)
  moreover have "contrastEntry 1 129 = 255"
    using contrastEntry_upper [of 1 129] b tpos by simp
  then have "uint (contrastTransform 1 ! 129) = 255"
    using contrastTransform_nth [of 129 1] by simp
  ultimately show ?thesis using tpos by simp
qed

subsection \<open>Mirror layouts\<close>

lemma nth_map_upto: "0 \<le> i \<Longrightarrow> i < n \<Longrightarrow> map f [0..n - 1] ! nat i = f i"
  by (simp add: nth_upto)

lemma pixelAt_grid:
  assumes "0 \<le> x" "x < W" "0 \<le> y" "y < H"
  shows "pixelAt (c\<lparr>scanLines := map (\<lambda>y. map (\<lambda>x. F x y) [0..W - 1]) [0..H - 1]\<rparr>) x y = F x y"
  using assms by (simp add: pixelAt_def nth_map_upto)

lemma valid_grid:
  assumes "0 < W" "0 < H" "width c = W" "height c = H"
  shows "valid_image (c\<lparr>scanLines := map (\<lambda>y. map (\<lambda>x. F x y) [0..W - 1]) [0..H - 1]\<rparr>)"
  using assms by (simp add: valid_image_def list_all_iff)

lemma drawImage_size [simp]:
  "width (drawImage b c x0 y0 src) = width c" "height (drawImage b c x0 y0 src) = height c"
  by (simp_all add: drawImage_def)

lemma drawImage_pixel:
  assumes "insideImage c x y"
  shows "pixelAt (drawImage b c x0 y0 src) x y =
           (if insideImage src (x - x0) (y - y0)
            then drawPixel b (pixelAt src (x - x0) (y - y0)) (pixelAt c x y)
            else pixelAt c x y)"
  using assms unfolding drawImage_def insideImage_def by (subst pixelAt_grid) simp_all

lemma drawImage_valid:
  assumes "0 < width c" "0 < height c"
  shows "valid_image (drawImage b c x0 y0 src)"
  unfolding drawImage_def using assms by (intro valid_grid) simp_all

lemma newImage_size:
  assumes "0 < W" "0 < H"
  shows "width (newImage_ARGB32 g W H) = W" "height (newImage_ARGB32 g W H) = H"
  using assms by (simp_all add: newImage_ARGB32_def)

lemma inside_indices:
  assumes "valid_image img" "insideImage img x y"
  shows "nat y < length (scanLines img)"
    and "int (length (scanLines img ! nat y)) = width img"
    and "nat x < length (scanLines img ! nat y)"
proof -
  have "0 \<le> y" "y < int (length (scanLines img))"
    using assms by (simp_all add: valid_image_def insideImage_def)
  then show y: "nat y < length (scanLines img)" by linarith
  then show len: "int (length (scanLines img ! nat y)) = width img"
    using assms(1) by (simp add: valid_image_def list_all_length)
  have "0 \<le> x" "x < width img" using assms(2) by (simp_all add: insideImage_def)
  then show "nat x < length (scanLines img ! nat y)" using len by linarith
qed

lemma opaque_pixel:
  assumes "valid_image img" "opaque_image img" "insideImage img x y"
  shows "qAlpha (pixelAt img x y) = 255"
  using assms(2) inside_indices [OF assms(1,3)]
  by (simp add: opaque_image_def list_all_length pixelAt_def)

lemma mirrored_horizontal_pixel:
  assumes "valid_image img" "insideImage img x y"
  shows "pixelAt (mirrored True False img) x y = pixelAt img (width img - 1 - x) y"
proof -
  note idx = inside_indices [OF assms]
  have "0 \<le> x" "x < width img" using assms(2) by (simp_all add: insideImage_def)
  then have "nat (width img - 1 - x) = length (scanLines img ! nat y) - Suc (nat x)"
    using idx(2) by linarith
  then show ?thesis
    using idx by (simp add: mirrored_def pixelAt_def rev_nth)
qed

lemma mirrored_inside [simp]: "insideImage (mirrored hz vt img) x y = insideImage img x y"
  by (simp add: mirrored_def insideImage_def)

lemma mirrored_none [simp]: "mirrored False False img = img"
  by (simp add: mirrored_def)


lemma mirror_dual_pixels:
  assumes v: "valid_image img" and o: "opaque_image img" and i: "insideImage img x y"
  shows "pixelAt (mirror b g LayDual m img) x y = pixelAt img x y"
    and "pixelAt (mirror b g LayDual m img) (width img + x) y = pixelAt img (width img - 1 - x) y"
proof -
  let ?w = "width img" and ?h = "height img"
  let ?m0 = "newImage_ARGB32 g (?w * 2) ?h"
  let ?m1 = "drawImage b ?m0 0 0 img"
  let ?hm = "mirrored True False img"
  have pos: "0 < ?w" "0 < ?h" "0 \<le> x" "x < ?w" "0 \<le> y" "y < ?h"
    using i by (auto simp add: insideImage_def)
  have sz0: "width ?m0 = ?w * 2" "height ?m0 = ?h"
    using pos by (simp_all add: newImage_size)
  have out: "mirror b g LayDual m img = drawImage b ?m1 ?w 0 ?hm"
    by (simp add: mirror_def Let_def)
  have in0: "insideImage ?m0 x y" "insideImage ?m0 (?w + x) y"
    using pos sz0 by (simp_all add: insideImage_def)
  then have in1: "insideImage ?m1 x y" "insideImage ?m1 (?w + x) y"
    by (simp_all add: insideImage_def)
  have a: "qAlpha (pixelAt img x y) = 255" by (rule opaque_pixel [OF v o i])
  have "pixelAt ?m1 x y = pixelAt img x y"
    using in0(1) i a by (simp add: drawImage_pixel drawPixel_def)
  moreover have "\<not> insideImage ?hm (x - ?w) (y - 0)"
    using pos by (simp add: insideImage_def)
  ultimately show "pixelAt (mirror b g LayDual m img) x y = pixelAt img x y"
    using in1(1) by (simp add: out drawImage_pixel)
  have i': "insideImage img (?w - 1 - x) y" using pos by (simp add: insideImage_def)
  have a': "qAlpha (pixelAt img (?w - 1 - x) y) = 255" by (rule opaque_pixel [OF v o i'])
  have "pixelAt ?hm x y = pixelAt img (?w - 1 - x) y"
    by (rule mirrored_horizontal_pixel [OF v i])
  then show "pixelAt (mirror b g LayDual m img) (?w + x) y = pixelAt img (?w - 1 - x) y"
    using in1(2) i a' by (simp add: out drawImage_pixel drawPixel_def)
qed

lemma mirror_dual_size:
  assumes v: "valid_image img"
  shows "width (mirror b g LayDual m img) = 2 * width img"
    and "height (mirror b g LayDual m img) = height img"
    and "valid_image (mirror b g LayDual m img)"
proof -
  consider (pos) "0 < width img" "0 < height img" | (null) "width img = 0" "height img = 0"
    using v by (auto simp add: valid_image_def)
  then have "width (mirror b g LayDual m img) = 2 * width img \<and>
             height (mirror b g LayDual m img) = height img \<and>
             valid_image (mirror b g LayDual m img)"
  proof cases
    case pos
    then show ?thesis
      by (simp add: mirror_def Let_def newImage_size drawImage_valid)
  next
    case null
    then show ?thesis
      by (simp add: mirror_def Let_def newImage_ARGB32_def nullImage_def drawImage_def valid_image_def)
  qed
  then show "width (mirror b g LayDual m img) = 2 * width img"
    and "height (mirror b g LayDual m img) = height img"
    and "valid_image (mirror b g LayDual m img)" by simp_all
qed


lemma mirrored_valid: "valid_image img \<Longrightarrow> valid_image (mirrored True False img)"
  by (auto simp add: valid_image_def mirrored_def list_all_iff)

lemma mirrored_opaque: "opaque_image img \<Longrightarrow> opaque_image (mirrored True False img)"
  by (simp add: opaque_image_def mirrored_def list_all_iff)

lemma mirrored_width [simp]: "width (mirrored hz vt img) = width img"
  by (simp add: mirrored_def)

lemma draw_opaque_tile:
  assumes "valid_image src" "opaque_image src" "insideImage c x y"
  shows "pixelAt (drawImage b c x0 y0 src) x y =
           (if insideImage src (x - x0) (y - y0) then pixelAt src (x - x0) (y - y0)
            else pixelAt c x y)"
  using assms opaque_pixel [of src "x - x0" "y - y0"]
  by (simp add: drawImage_pixel drawPixel_def)

lemma drawImage_inside [simp]: "insideImage (drawImage b c x0 y0 src) x y = insideImage c x y"
  by (simp add: insideImage_def)

lemma mirror_triple_pixels:
  assumes v: "valid_image img" and o: "opaque_image img" and i: "insideImage img x y"
  shows "pixelAt (mirror b g LayTriple m img) x y = pixelAt img x y"
    and "pixelAt (mirror b g LayTriple m img) (width img + x) y = pixelAt img (width img - 1 - x) y"
    and "pixelAt (mirror b g LayTriple m img) (width img * 2 + x) y = pixelAt img x y"
proof -
  let ?w = "width img" and ?h = "height img"
  let ?m0 = "newImage_ARGB32 g (?w * 3) ?h"
  let ?hm = "mirrored True False img"
  have pos: "0 < ?w" "0 < ?h" "0 \<le> x" "x < ?w" "0 \<le> y" "y < ?h"
    using i by (auto simp add: insideImage_def)
  have sz0: "width ?m0 = ?w * 3" "height ?m0 = ?h"
    using pos by (simp_all add: newImage_size)
  have out: "mirror b g LayTriple m img =
      drawImage b (drawImage b (drawImage b ?m0 0 0 img) ?w 0 ?hm) (?w * 2) 0 img"
    by (simp add: mirror_def Let_def)
  have vh: "valid_image ?hm" and oh: "opaque_image ?hm"
    using v o by (simp_all add: mirrored_valid mirrored_opaque)
  have px: "pixelAt (mirror b g LayTriple m img) X y =
      (if insideImage img (X - ?w * 2) y then pixelAt img (X - ?w * 2) y
       else if insideImage img (X - ?w) y then pixelAt ?hm (X - ?w) y
       else if insideImage img X y then pixelAt img X y
       else pixelAt ?m0 X y)" if "insideImage ?m0 X y" for X
    using that by (simp add: out draw_opaque_tile [OF v o] draw_opaque_tile [OF vh oh])
  have in0: "insideImage ?m0 x y" "insideImage ?m0 (?w + x) y" "insideImage ?m0 (?w * 2 + x) y"
    using pos sz0 by (simp_all add: insideImage_def)
  show "pixelAt (mirror b g LayTriple m img) x y = pixelAt img x y"
    using px [OF in0(1)] pos by (simp add: insideImage_def)
  show "pixelAt (mirror b g LayTriple m img) (?w + x) y = pixelAt img (?w - 1 - x) y"
    using px [OF in0(2)] pos mirrored_horizontal_pixel [OF v i] by (simp add: insideImage_def)
  show "pixelAt (mirror b g LayTriple m img) (?w * 2 + x) y = pixelAt img x y"
    using px [OF in0(3)] pos by (simp add: insideImage_def)
qed

lemma mirror_triple_size:
  assumes v: "valid_image img"
  shows "width (mirror b g LayTriple m img) = 3 * width img \<and>
         height (mirror b g LayTriple m img) = height img \<and>
         valid_image (mirror b g LayTriple m img)"
proof -
  consider (pos) "0 < width img" "0 < height img" | (null) "width img = 0" "height img = 0"
    using v by (auto simp add: valid_image_def)
  then show ?thesis
  proof cases
    case pos
    then show ?thesis
      by (simp add: mirror_def Let_def newImage_size drawImage_valid)
  next
    case null
    then show ?thesis
      by (simp add: mirror_def Let_def newImage_ARGB32_def nullImage_def drawImage_def valid_image_def)
  qed
qed

text \<open>
  The layouts on images without transparency: every pixel opaque, as in any image without
  alpha channel. Then each \<^verbatim>\<open>drawImage\<close> overwrites what the canvas held, and the Dual
  canvas is \<open>2w \<times> h\<close> with the image in its left half and the horizontal mirror in its
  right half.
\<close>

lemma dual_mirror_of_opaque_image:
  assumes "valid_image img" and "opaque_image img"
  shows "width (mirror b g LayDual m img) = 2 * width img \<and>
         height (mirror b g LayDual m img) = height img \<and>
         valid_image (mirror b g LayDual m img) \<and>
         (\<forall>x y. insideImage img x y \<longrightarrow>
            pixelAt (mirror b g LayDual m img) x y = pixelAt img x y \<and>
            pixelAt (mirror b g LayDual m img) (width img + x) y = pixelAt img (width img - 1 - x) y)"
  using mirror_dual_size [OF assms(1)] mirror_dual_pixels [OF assms] by simp

lemma two_by_two_valid: "valid_image two_by_two" "opaque_image two_by_two"
  by (simp_all add: two_by_two_def valid_image_def opaque_image_def)

lemma dual_mirror_of_opaque_two_by_two:
  "width (mirror keep_destination leftover_red LayDual nullImage two_by_two) = 4 \<and>
   pixelAt (mirror keep_destination leftover_red LayDual nullImage two_by_two) 0 1
     = \<lparr>qAlpha = 255, qRed = 7, qGreen = 8, qBlue = 9\<rparr> \<and>
   pixelAt (mirror keep_destination leftover_red LayDual nullImage two_by_two) 2 1
     = \<lparr>qAlpha = 255, qRed = 10, qGreen = 11, qBlue = 12\<rparr>"
proof -
  have i: "insideImage two_by_two 0 1" by (simp add: insideImage_def two_by_two_def)
  have w: "width two_by_two = 2" by (simp add: two_by_two_def)
  have p: "pixelAt two_by_two 0 1 = \<lparr>qAlpha = 255, qRed = 7, qGreen = 8, qBlue = 9\<rparr>"
    "pixelAt two_by_two 1 1 = \<lparr>qAlpha = 255, qRed = 10, qGreen = 11, qBlue = 12\<rparr>"
    by (simp_all add: pixelAt_def two_by_two_def)
  let ?M = "mirror keep_destination leftover_red LayDual nullImage two_by_two"
  note main = dual_mirror_of_opaque_image
    [OF two_by_two_valid, of keep_destination leftover_red nullImage]
  from main i have "pixelAt ?M 0 1 = pixelAt two_by_two 0 1 \<and>
      pixelAt ?M (width two_by_two + 0) 1 = pixelAt two_by_two (width two_by_two - 1 - 0) 1"
    by blast
  moreover from main have "width ?M = 2 * width two_by_two" by blast
  ultimately show ?thesis using w p by simp
qed

text \<open>
  On the same images the Triple canvas is \<open>3w \<times> h\<close>: the image, its horizontal mirror, and
  the image again (\<^verbatim>\<open>mirrored(false, false)\<close> changes nothing).
\<close>

lemma triple_mirror_of_opaque_image:
  assumes "valid_image img" and "opaque_image img"
  shows "width (mirror b g LayTriple m img) = 3 * width img \<and>
         height (mirror b g LayTriple m img) = height img \<and>
         valid_image (mirror b g LayTriple m img) \<and>
         (\<forall>x y. insideImage img x y \<longrightarrow>
            pixelAt (mirror b g LayTriple m img) x y = pixelAt img x y \<and>
            pixelAt (mirror b g LayTriple m img) (width img + x) y = pixelAt img (width img - 1 - x) y \<and>
            pixelAt (mirror b g LayTriple m img) (width img * 2 + x) y
              = pixelAt (mirror b g LayTriple m img) x y)"
  using mirror_triple_size [OF assms(1)] mirror_triple_pixels [OF assms] by simp

text \<open>
  C5 at a failing input. The canvas \<^verbatim>\<open>QImage(w * 2, h, Format_ARGB32)\<close> is never filled, and
  the painter composes with SourceOver. For the 1 \<open>\<times>\<close> 1 image whose pixel is fully
  transparent, both pixels of the Dual canvas are Qt's blend of that pixel over what the
  fresh buffer happened to hold: the left half is not the input image.
\<close>

theorem dual_mirror_of_transparent_pixel:
  "scanLines (mirror b g LayDual m (one_pixel_image \<lparr>qAlpha = 0, qRed = 255, qGreen = 0, qBlue = 0\<rparr>))
     = [[b \<lparr>qAlpha = 0, qRed = 255, qGreen = 0, qBlue = 0\<rparr> (g 0 0),
         b \<lparr>qAlpha = 0, qRed = 255, qGreen = 0, qBlue = 0\<rparr> (g 1 0)]] \<and>
   pixelAt (mirror keep_destination leftover_red LayDual m
              (one_pixel_image \<lparr>qAlpha = 0, qRed = 255, qGreen = 0, qBlue = 0\<rparr>)) 0 0
     = \<lparr>qAlpha = 255, qRed = 255, qGreen = 0, qBlue = 0\<rparr>"
  by (simp add: mirror_def Let_def one_pixel_image_def newImage_ARGB32_def drawImage_def
      insideImage_def pixelAt_def drawPixel_def mirrored_def upto.simps keep_destination_def
      leftover_red_def)

text \<open>
  C6 at a failing input. For the same 1 \<open>\<times>\<close> 1 transparent image the three tiles of the
  Triple canvas are blends over three different cells of the unfilled buffer: the third
  tile need not equal the first, and neither is the image.
\<close>

theorem triple_mirror_of_transparent_pixel:
  "scanLines (mirror b g LayTriple m (one_pixel_image \<lparr>qAlpha = 0, qRed = 255, qGreen = 0, qBlue = 0\<rparr>))
     = [[b \<lparr>qAlpha = 0, qRed = 255, qGreen = 0, qBlue = 0\<rparr> (g 0 0),
         b \<lparr>qAlpha = 0, qRed = 255, qGreen = 0, qBlue = 0\<rparr> (g 1 0),
         b \<lparr>qAlpha = 0, qRed = 255, qGreen = 0, qBlue = 0\<rparr> (g 2 0)]] \<and>
   pixelAt (mirror keep_destination leftover_ramp LayTriple m
              (one_pixel_image \<lparr>qAlpha = 0, qRed = 255, qGreen = 0, qBlue = 0\<rparr>)) 0 0
     = \<lparr>qAlpha = 255, qRed = 0, qGreen = 0, qBlue = 0\<rparr> \<and>
   pixelAt (mirror keep_destination leftover_ramp LayTriple m
              (one_pixel_image \<lparr>qAlpha = 0, qRed = 255, qGreen = 0, qBlue = 0\<rparr>)) 2 0
     = \<lparr>qAlpha = 255, qRed = 200, qGreen = 0, qBlue = 0\<rparr>"
  by (simp add: mirror_def Let_def one_pixel_image_def newImage_ARGB32_def drawImage_def
      insideImage_def pixelAt_def drawPixel_def mirrored_def upto.simps keep_destination_def
      leftover_ramp_def to_uchar_def)

subsection \<open>The HSL round trip\<close>

lemma hslValue_ramp: "hslValue n1 n2 u = ROUND ((n1 + (n2 - n1) * ramp (foldHue u)) * 255)"
  by (simp add: hslValue_def ramp_def Let_def)

lemma foldHue_range: "- 85 \<le> u \<Longrightarrow> u \<le> 340 \<Longrightarrow> 0 \<le> foldHue u \<and> foldHue u \<le> 255"
  by (simp add: foldHue_def)

lemma ramp_range: "0 \<le> u \<Longrightarrow> u \<le> 255 \<Longrightarrow> 0 \<le> ramp u \<and> ramp u \<le> 1"
  by (simp add: ramp_def)

lemma ramp_fold_lipschitz_ordered:
  assumes "- 85 \<le> v" "v \<le> u" "u \<le> 340"
  shows "ramp (foldHue u) - ramp (foldHue v) \<le> (u - v) * (2 / 85)"
    and "ramp (foldHue v) - ramp (foldHue u) \<le> (u - v) * (2 / 85)"
  using assms unfolding ramp_def foldHue_def
  by (simp_all split: if_splits add: field_simps)

lemma ramp_fold_lipschitz:
  assumes "- 85 \<le> u" "u \<le> 340" "- 85 \<le> v" "v \<le> 340"
  shows "\<bar>ramp (foldHue u) - ramp (foldHue v)\<bar> \<le> \<bar>u - v\<bar> * (2 / 85)"
proof (cases "v \<le> u")
  case True
  then have "\<bar>u - v\<bar> = u - v" by simp
  moreover have "\<bar>ramp (foldHue u) - ramp (foldHue v)\<bar> \<le> (u - v) * (2 / 85)"
    using ramp_fold_lipschitz_ordered [of v u] assms True by (intro abs_leI) simp_all
  ultimately show ?thesis by simp
next
  case False
  then have "\<bar>u - v\<bar> = v - u" by simp
  moreover have "\<bar>ramp (foldHue u) - ramp (foldHue v)\<bar> \<le> (v - u) * (2 / 85)"
    using ramp_fold_lipschitz_ordered [of u v] assms False by (intro abs_leI) simp_all
  ultimately show ?thesis by simp
qed

lemma AB_low:
  fixes Sg dl l s :: real
  assumes d1: "1 \<le> dl" and dS: "dl \<le> Sg" and S254: "Sg \<le> 254"
    and l0: "Sg / 2 \<le> l" and l1: "l \<le> Sg / 2 + 1 / 2"
    and se: "\<bar>s - 255 * dl / Sg\<bar> \<le> 1 / 2" and s0: "0 \<le> s" and s1: "s \<le> 255"
    and B: "B = l * (255 + s) / 255" and A: "A = 2 * l - B"
  shows "- (3 / 4) \<le> A - (Sg - dl) / 2" and "A - (Sg - dl) / 2 \<le> 3 / 4"
    and "- (1 / 4) \<le> B - (Sg + dl) / 2" and "B - (Sg + dl) / 2 \<le> 5 / 4"
    and "0 \<le> A" and "A \<le> B" and "B \<le> 255"
proof -
  define T where "T = 255 * dl / Sg"
  have Sp: "0 < Sg" using d1 dS by argo
  have TS: "T * Sg = 255 * dl" using Sp by (simp add: T_def)
  have T0: "0 \<le> T" using d1 Sp by (simp add: T_def)
  have T1: "T \<le> 255" using dS Sp by (simp add: T_def pos_divide_le_eq)
  have lp: "0 \<le> l" using l0 Sp by argo
  define U where "U = l * T"
  define W where "W = l * (s - T)"
  have "Sg / 2 * T \<le> l * T" using l0 T0 by (intro mult_right_mono)
  then have U0: "255 * dl / 2 \<le> U" using TS by (simp add: U_def algebra_simps)
  have "l * T \<le> (Sg / 2 + 1 / 2) * T" using l1 T0 by (intro mult_right_mono)
  then have "U \<le> 255 * dl / 2 + T / 2" using TS by (simp add: U_def algebra_simps)
  then have U1: "U \<le> 255 * dl / 2 + 255 / 2" using T1 by argo
  have "\<bar>W\<bar> = l * \<bar>s - T\<bar>" using lp by (simp add: W_def abs_mult)
  also have "\<dots> \<le> l * (1 / 2)" using se lp unfolding T_def by (intro mult_left_mono)
  finally have W1: "2 * \<bar>W\<bar> \<le> l" by simp
  have P: "l * s = U + W" by (simp add: U_def W_def algebra_simps)
  have Beq: "B = l + (U + W) / 255" unfolding B by (simp add: algebra_simps P [symmetric] add_divide_distrib)
  have Aeq: "A = l - (U + W) / 255" unfolding A Beq by simp
  show "- (3 / 4) \<le> A - (Sg - dl) / 2" "A - (Sg - dl) / 2 \<le> 3 / 4"
    unfolding Aeq using U0 U1 W1 l0 l1 S254 by argo+
  show "- (1 / 4) \<le> B - (Sg + dl) / 2" "B - (Sg + dl) / 2 \<le> 5 / 4"
    unfolding Beq using U0 U1 W1 l0 l1 S254 by argo+
  have Pp: "0 \<le> l * s" using lp s0 by simp
  have Pl: "l * s \<le> l * 255" using lp s1 by (intro mult_left_mono)
  show "0 \<le> A" unfolding Aeq P [symmetric] using Pl by argo
  show "A \<le> B" unfolding Aeq Beq P [symmetric] using Pp by argo
  show "B \<le> 255" unfolding Beq P [symmetric] using Pl l1 S254 by argo
qed

lemma AB_mid:
  fixes dl :: real
  assumes d1: "1 \<le> dl" and d2: "dl \<le> 255"
    and B: "B = 128 + dl - 128 * dl / 255" and A: "A = 2 * 128 - B"
  shows "0 \<le> A - (255 - dl) / 2" and "A - (255 - dl) / 2 \<le> 1"
    and "0 \<le> B - (255 + dl) / 2" and "B - (255 + dl) / 2 \<le> 1 / 2"
    and "0 \<le> A" and "A \<le> B" and "B \<le> 255"
  using assms by (simp_all add: field_simps)

lemma AB_high:
  fixes Sg dl l s :: real
  assumes d1: "1 \<le> dl" and dS: "dl \<le> 510 - Sg" and S256: "256 \<le> Sg"
    and l0: "Sg / 2 \<le> l" and l1: "l \<le> Sg / 2 + 1 / 2"
    and se: "\<bar>s - 255 * dl / (511 - Sg)\<bar> \<le> 1 / 2" and s0: "0 \<le> s" and s1: "s \<le> 255"
    and B: "B = l + s - l * s / 255" and A: "A = 2 * l - B"
  shows "- (1 / 4) \<le> A - (Sg - dl) / 2" and "A - (Sg - dl) / 2 \<le> 7 / 4"
    and "- (5 / 4) \<le> B - (Sg + dl) / 2" and "B - (Sg + dl) / 2 \<le> 3 / 4"
    and "0 \<le> A" and "A \<le> B" and "B \<le> 255"
proof -
  define D where "D = 511 - Sg"
  define T where "T = 255 * dl / D"
  define k where "k = 255 - l"
  have Dp: "0 < D" "dl + 1 \<le> D" using d1 dS by (simp_all add: D_def)
  have TD: "T * D = 255 * dl" using Dp by (simp add: T_def)
  have T0: "0 \<le> T" using d1 Dp by (simp add: T_def)
  have T1: "T \<le> 255" using Dp by (simp add: T_def pos_divide_le_eq)
  have k0: "(D - 2) / 2 \<le> k" and k1: "k \<le> (D - 1) / 2"
    using l0 l1 by (simp_all add: k_def D_def field_simps)
  have kp: "0 \<le> k" using k0 Dp d1 by argo
  have k127: "k \<le> 127" using l0 S256 by (simp add: k_def)
  define U where "U = T * k"
  define W where "W = (s - T) * k"
  have "T * ((D - 2) / 2) \<le> T * k" using k0 T0 by (intro mult_left_mono)
  then have "255 * dl / 2 - T \<le> U" using TD by (simp add: U_def algebra_simps)
  then have U0: "255 * dl / 2 - 255 \<le> U" using T1 by argo
  have "T * k \<le> T * ((D - 1) / 2)" using k1 T0 by (intro mult_left_mono)
  then have "U \<le> 255 * dl / 2 - T / 2" using TD by (simp add: U_def algebra_simps)
  then have U1: "U \<le> 255 * dl / 2" using T0 by argo
  have "\<bar>W\<bar> = \<bar>s - T\<bar> * k" using kp by (simp add: W_def abs_mult)
  also have "\<dots> \<le> 1 / 2 * k" using se kp unfolding T_def D_def by (intro mult_right_mono)
  finally have W1: "2 * \<bar>W\<bar> \<le> k" by simp
  have P: "s * k = U + W" by (simp add: U_def W_def algebra_simps)
  have Beq: "B = l + (U + W) / 255"
    unfolding B P [symmetric] k_def by (simp add: algebra_simps diff_divide_distrib)
  have Aeq: "A = l - (U + W) / 255" unfolding A Beq by simp
  show "- (1 / 4) \<le> A - (Sg - dl) / 2" "A - (Sg - dl) / 2 \<le> 7 / 4"
    unfolding Aeq using U0 U1 W1 l0 l1 k127 by argo+
  show "- (5 / 4) \<le> B - (Sg + dl) / 2" "B - (Sg + dl) / 2 \<le> 3 / 4"
    unfolding Beq using U0 U1 W1 l0 l1 k127 by argo+
  have Pp: "0 \<le> s * k" using kp s0 by simp
  have Pl: "s * k \<le> 255 * k" using kp s1 by (intro mult_right_mono)
  have kl: "k = 255 - l" by (simp add: k_def)
  show "0 \<le> A" unfolding Aeq P [symmetric] using Pl kl l0 S256 by argo
  show "A \<le> B" unfolding Aeq Beq P [symmetric] using Pp by argo
  show "B \<le> 255" unfolding Beq P [symmetric] using Pl kl by argo
qed

lemma back_error:
  fixes A B V c m d rh rs :: real
  assumes c: "c = m + d * rs" and V: "V = A + (B - A) * rh"
    and rr: "\<bar>rh - rs\<bar> \<le> 1 / 85" and r0: "0 \<le> rh" and r1: "rh \<le> 1"
    and d0: "0 \<le> d" and d1: "d \<le> 255"
    and al: "- (5 / 4) \<le> A - m" and bl: "- (5 / 4) \<le> B - (m + d)"
    and au: "A - m + d / 85 < 9 / 2" and bu: "B - (m + d) + d / 85 < 9 / 2"
  shows "- (9 / 2) \<le> V - c" and "V - c < 9 / 2"
proof -
  define X where "X = (A - m) * (1 - rh)"
  define Y where "Y = (B - (m + d)) * rh"
  define Z where "Z = d * (rh - rs)"
  define e where "e = max (A - m) (B - (m + d))"
  have eq: "V - c = X + Y + Z"
    unfolding c V X_def Y_def Z_def by (simp add: algebra_simps)
  have "\<bar>Z\<bar> = d * \<bar>rh - rs\<bar>" using d0 by (simp add: Z_def abs_mult)
  also have "\<dots> \<le> d * (1 / 85)" using d0 rr by (intro mult_left_mono)
  finally have Z1: "85 * \<bar>Z\<bar> \<le> d" by argo
  have "- (5 / 4) * (1 - rh) \<le> X" unfolding X_def using al r1 by (intro mult_right_mono) simp_all
  then have X0: "5 * rh - 5 \<le> 4 * X" by argo
  have "- (5 / 4) * rh \<le> Y" unfolding Y_def using bl r0 by (intro mult_right_mono) simp_all
  then have Y0: "- (5 * rh) \<le> 4 * Y" by argo
  show "- (9 / 2) \<le> V - c" unfolding eq using X0 Y0 Z1 d1 by argo
  have "X \<le> e * (1 - rh)" unfolding X_def e_def using r1 by (intro mult_right_mono) simp_all
  moreover have "Y \<le> e * rh" unfolding Y_def e_def using r0 by (intro mult_right_mono) simp_all
  ultimately have "X + Y \<le> e * (1 - rh) + e * rh" by (rule add_mono)
  moreover have "e * (1 - rh) + e * rh = e" by (simp add: algebra_simps)
  ultimately have XY: "X + Y \<le> e" by simp
  have "e + d / 85 < 9 / 2" using au bu by (simp add: e_def max_def)
  then show "V - c < 9 / 2" unfolding eq using XY Z1 by argo
qed

lemma round_close:
  fixes V :: real and c :: int
  assumes "- (9 / 2) \<le> V - real_of_int c" and "V - real_of_int c < 9 / 2" and "0 \<le> V"
  shows "\<bar>ROUND V - c\<bar> \<le> 4"
proof -
  have "ROUND V = \<lfloor>V + 1 / 2\<rfloor>" using assms(3) by (simp add: ROUND_nonneg)
  then show ?thesis using assms(1,2) by linarith
qed

lemma round_range:
  fixes V :: real
  assumes "0 \<le> V" and "V \<le> 255"
  shows "0 \<le> ROUND V \<and> ROUND V \<le> 255"
proof -
  have "ROUND V = \<lfloor>V + 1 / 2\<rfloor>" using assms(1) by (simp add: ROUND_nonneg)
  then show ?thesis using assms by linarith
qed

lemma quotient_bounds:
  fixes d n :: real
  assumes "0 < d" "\<bar>n\<bar> \<le> d"
  shows "- 1 \<le> n / d" "n / d \<le> 1"
  using assms by (simp_all add: pos_le_divide_eq pos_divide_le_eq abs_le_iff)

lemma ideal_red_max:
  fixes r g b d q H :: real
  assumes rg: "g \<le> r" and rb: "b \<le> r" and d: "d = r - min g b" and dp: "0 < d"
    and q: "q = (g - b) / d"
    and H: "H = (if q * (85 / 2) < 0 then q * (85 / 2) + 255
                 else if q * (85 / 2) > 255 then q * (85 / 2) - 255 else q * (85 / 2))"
  shows "r = min g b + d * ramp (foldHue (H + 85))"
    and "g = min g b + d * ramp (foldHue H)"
    and "b = min g b + d * ramp (foldHue (H - 85))"
    and "0 \<le> H" and "H < 255"
proof -
  have "\<bar>g - b\<bar> \<le> d" using rg rb d by (simp add: min_def abs_le_iff split: if_splits)
  then have qb: "- 1 \<le> q" "q \<le> 1" using quotient_bounds [OF dp] q by simp_all
  have dq: "d * q = g - b" using q dp by simp
  show "0 \<le> H" "H < 255" using qb unfolding H by (simp_all split: if_splits)
  show "r = min g b + d * ramp (foldHue (H + 85))"
  proof (cases "b \<le> g")
    case True
    then have "0 \<le> q" using q dp by simp
    then have "ramp (foldHue (H + 85)) = 1"
      using qb unfolding H ramp_def foldHue_def by (simp split: if_splits; argo)
    then show ?thesis using True d by (simp add: min_def)
  next
    case False
    then have "q < 0" using q dp by (simp add: divide_less_0_iff)
    then have "ramp (foldHue (H + 85)) = 1"
      using qb unfolding H ramp_def foldHue_def by (simp split: if_splits; argo)
    then show ?thesis using False d by (simp add: min_def)
  qed
  show "g = min g b + d * ramp (foldHue H)"
  proof (cases "b \<le> g")
    case True
    then have "0 \<le> q" using q dp by simp
    then have "ramp (foldHue H) = q"
      using qb unfolding H ramp_def foldHue_def by (simp split: if_splits; argo)
    then show ?thesis using True d dq by (simp add: min_def)
  next
    case False
    then have "q < 0" using q dp by (simp add: divide_less_0_iff)
    then have "ramp (foldHue H) = 0"
      using qb unfolding H ramp_def foldHue_def by (simp split: if_splits; argo)
    then show ?thesis using False d by (simp add: min_def)
  qed
  show "b = min g b + d * ramp (foldHue (H - 85))"
  proof (cases "b \<le> g")
    case True
    then have "0 \<le> q" using q dp by simp
    then have "ramp (foldHue (H - 85)) = 0"
      using qb unfolding H ramp_def foldHue_def by (simp split: if_splits; argo)
    then show ?thesis using True d by (simp add: min_def)
  next
    case False
    then have "q < 0" using q dp by (simp add: divide_less_0_iff)
    then have "ramp (foldHue (H - 85)) = - q"
      using qb unfolding H ramp_def foldHue_def by (simp split: if_splits; argo)
    then show ?thesis using False d dq by (simp add: min_def)
  qed
qed


lemma ideal_green_max:
  fixes r g b d q H :: real
  assumes gr: "r \<le> g" and gb: "b \<le> g" and d: "d = g - min r b" and dp: "0 < d"
    and q: "q = (b - r) / d"
    and H: "H = (if (2 + q) * (85 / 2) < 0 then (2 + q) * (85 / 2) + 255
                 else if (2 + q) * (85 / 2) > 255 then (2 + q) * (85 / 2) - 255
                 else (2 + q) * (85 / 2))"
  shows "r = min r b + d * ramp (foldHue (H + 85))"
    and "g = min r b + d * ramp (foldHue H)"
    and "b = min r b + d * ramp (foldHue (H - 85))"
    and "0 \<le> H" and "H < 255"
proof -
  have "\<bar>b - r\<bar> \<le> d" using gr gb d by (simp add: min_def abs_le_iff split: if_splits)
  then have qb: "- 1 \<le> q" "q \<le> 1" using quotient_bounds [OF dp] q by simp_all
  have dq: "d * q = b - r" using q dp by simp
  show "0 \<le> H" "H < 255" using qb unfolding H by (simp_all split: if_splits)
  show "r = min r b + d * ramp (foldHue (H + 85))"
  proof (cases "r \<le> b")
    case True
    then have "0 \<le> q" using q dp by simp
    then have "ramp (foldHue (H + 85)) = 0"
      using qb unfolding H ramp_def foldHue_def by (simp split: if_splits; argo)
    then show ?thesis using True d by (simp add: min_def)
  next
    case False
    then have "q < 0" using q dp by (simp add: divide_less_0_iff)
    then have "ramp (foldHue (H + 85)) = - q"
      using qb unfolding H ramp_def foldHue_def by (simp split: if_splits; argo)
    then show ?thesis using False d dq by (simp add: min_def)
  qed
  show "g = min r b + d * ramp (foldHue H)"
  proof (cases "r \<le> b")
    case True
    then have "0 \<le> q" using q dp by simp
    then have "ramp (foldHue (H)) = 1"
      using qb unfolding H ramp_def foldHue_def by (simp split: if_splits; argo)
    then show ?thesis using True d by (simp add: min_def)
  next
    case False
    then have "q < 0" using q dp by (simp add: divide_less_0_iff)
    then have "ramp (foldHue (H)) = 1"
      using qb unfolding H ramp_def foldHue_def by (simp split: if_splits; argo)
    then show ?thesis using False d by (simp add: min_def)
  qed
  show "b = min r b + d * ramp (foldHue (H - 85))"
  proof (cases "r \<le> b")
    case True
    then have "0 \<le> q" using q dp by simp
    then have "ramp (foldHue (H - 85)) = q"
      using qb unfolding H ramp_def foldHue_def by (simp split: if_splits; argo)
    then show ?thesis using True d dq by (simp add: min_def)
  next
    case False
    then have "q < 0" using q dp by (simp add: divide_less_0_iff)
    then have "ramp (foldHue (H - 85)) = 0"
      using qb unfolding H ramp_def foldHue_def by (simp split: if_splits; argo)
    then show ?thesis using False d by (simp add: min_def)
  qed
qed

lemma ideal_blue_max:
  fixes r g b d q H :: real
  assumes br: "r \<le> b" and bg: "g \<le> b" and d: "d = b - min r g" and dp: "0 < d"
    and q: "q = (r - g) / d"
    and H: "H = (if (4 + q) * (85 / 2) < 0 then (4 + q) * (85 / 2) + 255
                 else if (4 + q) * (85 / 2) > 255 then (4 + q) * (85 / 2) - 255
                 else (4 + q) * (85 / 2))"
  shows "r = min r g + d * ramp (foldHue (H + 85))"
    and "g = min r g + d * ramp (foldHue H)"
    and "b = min r g + d * ramp (foldHue (H - 85))"
    and "0 \<le> H" and "H < 255"
proof -
  have "\<bar>r - g\<bar> \<le> d" using br bg d by (simp add: min_def abs_le_iff split: if_splits)
  then have qb: "- 1 \<le> q" "q \<le> 1" using quotient_bounds [OF dp] q by simp_all
  have dq: "d * q = r - g" using q dp by simp
  show "0 \<le> H" "H < 255" using qb unfolding H by (simp_all split: if_splits)
  show "r = min r g + d * ramp (foldHue (H + 85))"
  proof (cases "g \<le> r")
    case True
    then have "0 \<le> q" using q dp by simp
    then have "ramp (foldHue (H + 85)) = q"
      using qb unfolding H ramp_def foldHue_def by (simp split: if_splits; argo)
    then show ?thesis using True d dq by (simp add: min_def)
  next
    case False
    then have "q < 0" using q dp by (simp add: divide_less_0_iff)
    then have "ramp (foldHue (H + 85)) = 0"
      using qb unfolding H ramp_def foldHue_def by (simp split: if_splits; argo)
    then show ?thesis using False d by (simp add: min_def)
  qed
  show "g = min r g + d * ramp (foldHue H)"
  proof (cases "g \<le> r")
    case True
    then have "0 \<le> q" using q dp by simp
    then have "ramp (foldHue (H)) = 0"
      using qb unfolding H ramp_def foldHue_def by (simp split: if_splits; argo)
    then show ?thesis using True d by (simp add: min_def)
  next
    case False
    then have "q < 0" using q dp by (simp add: divide_less_0_iff)
    then have "ramp (foldHue (H)) = - q"
      using qb unfolding H ramp_def foldHue_def by (simp split: if_splits; argo)
    then show ?thesis using False d dq by (simp add: min_def)
  qed
  show "b = min r g + d * ramp (foldHue (H - 85))"
  proof (cases "g \<le> r")
    case True
    then have "0 \<le> q" using q dp by simp
    then have "ramp (foldHue (H - 85)) = 1"
      using qb unfolding H ramp_def foldHue_def by (simp split: if_splits; argo)
    then show ?thesis using True d by (simp add: min_def)
  next
    case False
    then have "q < 0" using q dp by (simp add: divide_less_0_iff)
    then have "ramp (foldHue (H - 85)) = 1"
      using qb unfolding H ramp_def foldHue_def by (simp split: if_splits; argo)
    then show ?thesis using False d by (simp add: min_def)
  qed
qed

lemma ROUND_near:
  fixes x :: real
  assumes "0 \<le> x"
  shows "\<bar>real_of_int (ROUND x) - x\<bar> \<le> 1 / 2"
proof -
  have "ROUND x = \<lfloor>x + 1 / 2\<rfloor>" using assms by (simp add: ROUND_nonneg)
  then show ?thesis by linarith
qed

lemma ROUND_between:
  fixes x :: real
  assumes "real_of_int lo \<le> x" and "x \<le> real_of_int hi" and "0 \<le> lo"
  shows "lo \<le> ROUND x \<and> ROUND x \<le> hi"
proof -
  have "0 \<le> x" using assms by linarith
  then have "ROUND x = \<lfloor>x + 1 / 2\<rfloor>" by (simp add: ROUND_nonneg)
  then show ?thesis using assms by linarith
qed

lemmas levels_eval = levels_ok_def backLevels_def ROUND_def c_trunc_def Let_def

lemma levels_ok_245:
  "levels_ok 245 11"
  by (simp_all add: levels_eval)

lemma levels_ok_246:
  "levels_ok 246 10" "levels_ok 246 11" "levels_ok 246 12"
  by (simp_all add: levels_eval)

lemma levels_ok_247:
  "levels_ok 247 9" "levels_ok 247 10" "levels_ok 247 11" "levels_ok 247 12"
  "levels_ok 247 13"
  by (simp_all add: levels_eval)

lemma levels_ok_248:
  "levels_ok 248 8" "levels_ok 248 9" "levels_ok 248 10" "levels_ok 248 11" "levels_ok 248 12"
  "levels_ok 248 13" "levels_ok 248 14"
  by (simp_all add: levels_eval)

lemma levels_ok_249:
  "levels_ok 249 7" "levels_ok 249 8" "levels_ok 249 9" "levels_ok 249 10" "levels_ok 249 11"
  "levels_ok 249 12" "levels_ok 249 13" "levels_ok 249 14" "levels_ok 249 15"
  by (simp_all add: levels_eval)

lemma levels_ok_250:
  "levels_ok 250 6" "levels_ok 250 7" "levels_ok 250 8" "levels_ok 250 9" "levels_ok 250 10"
  "levels_ok 250 11" "levels_ok 250 12" "levels_ok 250 13" "levels_ok 250 14"
  "levels_ok 250 15" "levels_ok 250 16"
  by (simp_all add: levels_eval)

lemma levels_ok_251:
  "levels_ok 251 5" "levels_ok 251 6" "levels_ok 251 7" "levels_ok 251 8" "levels_ok 251 9"
  "levels_ok 251 10" "levels_ok 251 11" "levels_ok 251 12" "levels_ok 251 13"
  "levels_ok 251 14" "levels_ok 251 15" "levels_ok 251 16" "levels_ok 251 17"
  by (simp_all add: levels_eval)

lemma levels_ok_252:
  "levels_ok 252 4" "levels_ok 252 5" "levels_ok 252 6" "levels_ok 252 7" "levels_ok 252 8"
  "levels_ok 252 9" "levels_ok 252 10" "levels_ok 252 11" "levels_ok 252 12"
  "levels_ok 252 13" "levels_ok 252 14" "levels_ok 252 15" "levels_ok 252 16"
  "levels_ok 252 17" "levels_ok 252 18"
  by (simp_all add: levels_eval)

lemma levels_ok_253:
  "levels_ok 253 3" "levels_ok 253 4" "levels_ok 253 5" "levels_ok 253 6" "levels_ok 253 7"
  "levels_ok 253 8" "levels_ok 253 9" "levels_ok 253 10" "levels_ok 253 11" "levels_ok 253 12"
  "levels_ok 253 13" "levels_ok 253 14" "levels_ok 253 15" "levels_ok 253 16"
  "levels_ok 253 17" "levels_ok 253 18" "levels_ok 253 19"
  by (simp_all add: levels_eval)

lemma levels_ok_254:
  "levels_ok 254 2" "levels_ok 254 3" "levels_ok 254 4" "levels_ok 254 5" "levels_ok 254 6"
  "levels_ok 254 7" "levels_ok 254 8" "levels_ok 254 9" "levels_ok 254 10" "levels_ok 254 11"
  "levels_ok 254 12" "levels_ok 254 13" "levels_ok 254 14" "levels_ok 254 15"
  "levels_ok 254 16" "levels_ok 254 17" "levels_ok 254 18" "levels_ok 254 19"
  "levels_ok 254 20"
  by (simp_all add: levels_eval)

lemma levels_ok_255:
  "levels_ok 255 1" "levels_ok 255 2" "levels_ok 255 3" "levels_ok 255 4" "levels_ok 255 5"
  "levels_ok 255 6" "levels_ok 255 7" "levels_ok 255 8" "levels_ok 255 9" "levels_ok 255 10"
  "levels_ok 255 11" "levels_ok 255 12" "levels_ok 255 13" "levels_ok 255 14"
  "levels_ok 255 15" "levels_ok 255 16" "levels_ok 255 17" "levels_ok 255 18"
  "levels_ok 255 19" "levels_ok 255 20" "levels_ok 255 21"
  by (simp_all add: levels_eval)

lemma levels_ok_bright:
  assumes "0 \<le> mn" and "mx \<le> 255" and "256 \<le> mx + mn" and "234 \<le> mx - mn"
  shows "levels_ok mx mn"
proof -
  have "mx = 245 \<or> mx = 246 \<or> mx = 247 \<or> mx = 248 \<or> mx = 249 \<or> mx = 250 \<or> mx = 251 \<or> mx = 252 \<or> mx = 253 \<or> mx = 254 \<or> mx = 255"
    using assms by presburger
  then show ?thesis
  proof (elim disjE)
    assume mx: "mx = 245"
    then have "mn = 11" using assms by presburger
    then show ?thesis using mx levels_ok_245 by simp
  next
    assume mx: "mx = 246"
    then have "mn = 10 \<or> mn = 11 \<or> mn = 12"
      using assms by presburger
    then show ?thesis using mx levels_ok_246 by (elim disjE) simp_all
  next
    assume mx: "mx = 247"
    then have "mn = 9 \<or> mn = 10 \<or> mn = 11 \<or> mn = 12 \<or> mn = 13"
      using assms by presburger
    then show ?thesis using mx levels_ok_247 by (elim disjE) simp_all
  next
    assume mx: "mx = 248"
    then have "mn = 8 \<or> mn = 9 \<or> mn = 10 \<or> mn = 11 \<or> mn = 12 \<or> mn = 13 \<or> mn = 14"
      using assms by presburger
    then show ?thesis using mx levels_ok_248 by (elim disjE) simp_all
  next
    assume mx: "mx = 249"
    then have "mn = 7 \<or> mn = 8 \<or> mn = 9 \<or> mn = 10 \<or> mn = 11 \<or> mn = 12 \<or> mn = 13 \<or> mn = 14 \<or> mn = 15"
      using assms by presburger
    then show ?thesis using mx levels_ok_249 by (elim disjE) simp_all
  next
    assume mx: "mx = 250"
    then have "mn = 6 \<or> mn = 7 \<or> mn = 8 \<or> mn = 9 \<or> mn = 10 \<or> mn = 11 \<or> mn = 12 \<or> mn = 13 \<or> mn = 14 \<or> mn = 15 \<or> mn = 16"
      using assms by presburger
    then show ?thesis using mx levels_ok_250 by (elim disjE) simp_all
  next
    assume mx: "mx = 251"
    then have "mn = 5 \<or> mn = 6 \<or> mn = 7 \<or> mn = 8 \<or> mn = 9 \<or> mn = 10 \<or> mn = 11 \<or> mn = 12 \<or> mn = 13 \<or> mn = 14 \<or> mn = 15 \<or> mn = 16 \<or> mn = 17"
      using assms by presburger
    then show ?thesis using mx levels_ok_251 by (elim disjE) simp_all
  next
    assume mx: "mx = 252"
    then have "mn = 4 \<or> mn = 5 \<or> mn = 6 \<or> mn = 7 \<or> mn = 8 \<or> mn = 9 \<or> mn = 10 \<or> mn = 11 \<or> mn = 12 \<or> mn = 13 \<or> mn = 14 \<or> mn = 15 \<or> mn = 16 \<or> mn = 17 \<or> mn = 18"
      using assms by presburger
    then show ?thesis using mx levels_ok_252 by (elim disjE) simp_all
  next
    assume mx: "mx = 253"
    then have "mn = 3 \<or> mn = 4 \<or> mn = 5 \<or> mn = 6 \<or> mn = 7 \<or> mn = 8 \<or> mn = 9 \<or> mn = 10 \<or> mn = 11 \<or> mn = 12 \<or> mn = 13 \<or> mn = 14 \<or> mn = 15 \<or> mn = 16 \<or> mn = 17 \<or> mn = 18 \<or> mn = 19"
      using assms by presburger
    then show ?thesis using mx levels_ok_253 by (elim disjE) simp_all
  next
    assume mx: "mx = 254"
    then have "mn = 2 \<or> mn = 3 \<or> mn = 4 \<or> mn = 5 \<or> mn = 6 \<or> mn = 7 \<or> mn = 8 \<or> mn = 9 \<or> mn = 10 \<or> mn = 11 \<or> mn = 12 \<or> mn = 13 \<or> mn = 14 \<or> mn = 15 \<or> mn = 16 \<or> mn = 17 \<or> mn = 18 \<or> mn = 19 \<or> mn = 20"
      using assms by presburger
    then show ?thesis using mx levels_ok_254 by (elim disjE) simp_all
  next
    assume mx: "mx = 255"
    then have "mn = 1 \<or> mn = 2 \<or> mn = 3 \<or> mn = 4 \<or> mn = 5 \<or> mn = 6 \<or> mn = 7 \<or> mn = 8 \<or> mn = 9 \<or> mn = 10 \<or> mn = 11 \<or> mn = 12 \<or> mn = 13 \<or> mn = 14 \<or> mn = 15 \<or> mn = 16 \<or> mn = 17 \<or> mn = 18 \<or> mn = 19 \<or> mn = 20 \<or> mn = 21"
      using assms by presburger
    then show ?thesis using mx levels_ok_255 by (elim disjE) simp_all
  qed
qed

lemma lightness_saturation_back:
  fixes mx mn :: int
  assumes mn0: "0 \<le> mn" and lt: "mn < mx" and mx1: "mx \<le> 255"
    and L: "L = real_of_int (mx + mn) / 2"
    and S: "S = (if L < 128 then 255 * real_of_int (mx - mn) / real_of_int (mx + mn)
                 else 255 * real_of_int (mx - mn) / real_of_int (511 - mx - mn))"
    and l: "l = real_of_int (ROUND L)" and s: "s = real_of_int (ROUND S)"
    and m2: "m2 = (if l < 128 then (l * (255 + s)) / 65025 else (l + s - (l * s) / 255) / 255)"
    and m1: "m1 = (l / (255 / 2)) - m2"
  shows "0 \<le> ROUND L \<and> ROUND L \<le> 255" and "1 \<le> ROUND S \<and> ROUND S \<le> 255"
    and "- (5 / 4) \<le> 255 * m1 - real_of_int mn"
    and "- (5 / 4) \<le> 255 * m2 - (real_of_int mn + real_of_int (mx - mn))"
    and "255 * m1 - real_of_int mn + real_of_int (mx - mn) / 85 < 9 / 2"
    and "255 * m2 - (real_of_int mn + real_of_int (mx - mn)) + real_of_int (mx - mn) / 85 < 9 / 2"
    and "0 \<le> 255 * m1" and "255 * m1 \<le> 255 * m2" and "255 * m2 \<le> 255"
proof -
  define Sg where "Sg = real_of_int (mx + mn)"
  define dl where "dl = real_of_int (mx - mn)"
  have d1: "1 \<le> dl" using lt by (simp add: dl_def)
  have dS: "dl \<le> Sg" using mn0 by (simp add: dl_def Sg_def)
  have dS2: "dl \<le> 510 - Sg" using mx1 by (simp add: dl_def Sg_def)
  have Sgp: "1 \<le> Sg" using d1 dS by linarith
  have L0: "0 \<le> L" using Sgp by (simp add: L Sg_def)
  have "L + 1 / 2 = real_of_int (mx + mn + 1) / real_of_int 2" by (simp add: L)
  then have "\<lfloor>L + 1 / 2\<rfloor> = (mx + mn + 1) div 2" by (simp only: floor_divide_of_int_eq)
  then have Ll: "ROUND L = (mx + mn + 1) div 2" using L0 by (simp add: ROUND_nonneg)
  have "mx + mn \<le> 2 * ((mx + mn + 1) div 2)" "2 * ((mx + mn + 1) div 2) \<le> mx + mn + 1"
    by linarith+
  then have l2: "real_of_int (mx + mn) \<le> 2 * l" "2 * l \<le> real_of_int (mx + mn) + 1"
    unfolding l Ll by (simp_all only: of_int_le_iff [symmetric, where ?'a = real] of_int_mult of_int_add of_int_numeral of_int_1)
  have l0: "Sg / 2 \<le> l" using l2(1) unfolding Sg_def by argo
  have l1: "l \<le> Sg / 2 + 1 / 2" using l2(2) unfolding Sg_def by argo
  show lr: "0 \<le> ROUND L \<and> ROUND L \<le> 255"
    using ROUND_between [of 0 L 255] L0 mx1 lt by (simp add: L)
  have c511: "real_of_int (511 - mx - mn) = 511 - Sg" by (simp add: Sg_def)
  have Sgen: "S = (if L < 128 then 255 * dl / Sg else 255 * dl / (511 - Sg))"
    unfolding S c511 by (simp add: Sg_def dl_def)
  have Sb: "1 \<le> S \<and> S \<le> 255"
  proof (cases "L < 128")
    case True
    then have "real_of_int (mx + mn) < 256" by (simp add: L)
    then have "mx + mn < 256" by linarith
    then have "mx + mn \<le> 255" by simp
    then have "Sg \<le> 255" unfolding Sg_def by (simp only: of_int_le_iff [symmetric, where ?'a = real] of_int_numeral)
    then have "Sg \<le> 255 * dl" using d1 by argo
    then show ?thesis using True dS Sgp
      by (simp add: Sgen pos_le_divide_eq pos_divide_le_eq)
  next
    case False
    then have "256 \<le> Sg" unfolding L Sg_def by argo
    then have "511 - Sg \<le> 255 * dl" "0 < 511 - Sg" using d1 dS2 by argo+
    then show ?thesis using False dS2
      by (simp add: Sgen pos_le_divide_eq pos_divide_le_eq)
  qed
  show sr: "1 \<le> ROUND S \<and> ROUND S \<le> 255"
    using ROUND_between [of 1 S 255] Sb by simp
  have s0: "0 \<le> s" and s1: "s \<le> 255" using sr by (simp_all add: s)
  have se: "\<bar>s - S\<bar> \<le> 1 / 2" unfolding s using ROUND_near [of S] Sb by simp
  have mnmx: "real_of_int mn = (Sg - dl) / 2" "real_of_int mn + real_of_int (mx - mn) = (Sg + dl) / 2"
    by (simp_all add: Sg_def dl_def)
  define A where "A = 255 * m1"
  define B where "B = 255 * m2"
  have AB2: "A = 2 * l - B" by (simp add: A_def B_def m1)
  have bl: "backLevels mx mn = (A, B)"
    by (simp add: backLevels_def Let_def A_def B_def m1 m2 l s S L)
  have ok: "levels_ok mx mn \<Longrightarrow>
      A - (Sg - dl) / 2 + dl / 85 < 9 / 2 \<and> B - (Sg + dl) / 2 + dl / 85 < 9 / 2"
    unfolding levels_ok_def bl by (simp add: Sg_def dl_def)
  consider (low) "mx + mn \<le> 254" | (mid) "mx + mn = 255" | (high) "256 \<le> mx + mn"
    by linarith
  then have "- (5 / 4) \<le> A - (Sg - dl) / 2 \<and> - (5 / 4) \<le> B - (Sg + dl) / 2 \<and>
     A - (Sg - dl) / 2 + dl / 85 < 9 / 2 \<and> B - (Sg + dl) / 2 + dl / 85 < 9 / 2 \<and>
     0 \<le> A \<and> A \<le> B \<and> B \<le> 255"
  proof cases
    case low
    then have low': "Sg \<le> 254"
      unfolding Sg_def by (simp only: of_int_le_iff [symmetric, where ?'a = real] of_int_numeral)
    then have "L < 128" by (simp add: L Sg_def)
    then have Seq: "S = 255 * dl / Sg" by (simp add: Sgen)
    have "l < 128" using l1 low' by linarith
    then have Beq: "B = l * (255 + s) / 255" by (simp add: B_def m2)
    have se': "\<bar>s - 255 * dl / Sg\<bar> \<le> 1 / 2" using se Seq by simp
    note R = AB_low [OF d1 dS low' l0 l1 se' s0 s1 Beq AB2]
    have "dl \<le> 254" using dS low' by linarith
    then show ?thesis using R by argo
  next
    case mid
    then have mid': "Sg = 255" unfolding Sg_def by simp
    then have Lh: "L < 128" by (simp add: L Sg_def)
    have "ROUND L = 128" unfolding Ll mid by simp
    then have l128: "l = 128" by (simp add: l)
    have "S = dl" using Lh mid' by (simp add: Sgen)
    then have "S = real_of_int (mx - mn)" by (simp only: dl_def)
    then have "ROUND S = mx - mn" using lt ROUND_int [of "mx - mn"] by simp
    then have sd: "s = dl" by (simp add: s dl_def)
    have Beq: "B = 128 + dl - 128 * dl / 255" by (simp add: B_def m2 l128 sd)
    have d255: "dl \<le> 255" using dS mid' by simp
    have AB2': "A = 2 * 128 - B" using AB2 l128 by simp
    note R = AB_mid [OF d1 d255 Beq AB2']
    show ?thesis using R d255 unfolding mid' by argo
  next
    case high
    then have high': "256 \<le> Sg"
      unfolding Sg_def by (simp only: of_int_le_iff [symmetric, where ?'a = real] of_int_numeral)
    then have nL: "\<not> L < 128" by (simp add: L Sg_def)
    then have Seq: "S = 255 * dl / (511 - Sg)" by (simp add: Sgen)
    have "\<not> l < 128" using l0 high' by linarith
    then have Beq: "B = l + s - l * s / 255" by (simp add: B_def m2)
    have se': "\<bar>s - 255 * dl / (511 - Sg)\<bar> \<le> 1 / 2" using se Seq by simp
    note R = AB_high [OF d1 dS2 high' l0 l1 se' s0 s1 Beq AB2]
    show ?thesis
    proof (cases "mx - mn \<le> 233")
      case True
      then have "dl \<le> 233"
        unfolding dl_def by (simp only: of_int_le_iff [symmetric, where ?'a = real] of_int_numeral)
      then show ?thesis using R by argo
    next
      case False
      then have "234 \<le> mx - mn" by simp
      then have lv: "levels_ok mx mn" using mn0 mx1 high by (intro levels_ok_bright)
      from ok [OF lv] have u: "A - (Sg - dl) / 2 + dl / 85 < 9 / 2" "B - (Sg + dl) / 2 + dl / 85 < 9 / 2"
        by simp_all
      have lo: "- (5 / 4) \<le> A - (Sg - dl) / 2" using R(1) by argo
      show ?thesis using u lo R(3,5,6,7) by simp
    qed
  qed
  then have R: "- (5 / 4) \<le> A - (Sg - dl) / 2" "- (5 / 4) \<le> B - (Sg + dl) / 2"
    "A - (Sg - dl) / 2 + dl / 85 < 9 / 2" "B - (Sg + dl) / 2 + dl / 85 < 9 / 2"
    "0 \<le> A" "A \<le> B" "B \<le> 255" by simp_all
  show "- (5 / 4) \<le> 255 * m1 - real_of_int mn"
    using R(1) by (simp only: A_def mnmx(1))
  show "- (5 / 4) \<le> 255 * m2 - (real_of_int mn + real_of_int (mx - mn))"
    using R(2) by (simp only: B_def mnmx(2))
  show "255 * m1 - real_of_int mn + real_of_int (mx - mn) / 85 < 9 / 2"
    using R(3) by (simp only: A_def mnmx(1) dl_def)
  show "255 * m2 - (real_of_int mn + real_of_int (mx - mn)) + real_of_int (mx - mn) / 85 < 9 / 2"
    using R(4) by (simp only: B_def mnmx(2) dl_def)
  show "0 \<le> 255 * m1" and "255 * m1 \<le> 255 * m2" and "255 * m2 \<le> 255"
    using R(5-7) by (simp_all only: A_def B_def)
qed

lemma channel_back:
  fixes c hi :: int and mn d H A B m1 m2 off :: real
  assumes ideal: "real_of_int c = mn + d * ramp (foldHue (H + off))"
    and off: "- 85 \<le> off" "off \<le> 85"
    and H: "0 \<le> H" "H \<le> 255"
    and hi: "0 \<le> hi" "hi \<le> 255" "\<bar>real_of_int hi - H\<bar> \<le> 1 / 2"
    and d: "0 \<le> d" "d \<le> 255"
    and al: "- (5 / 4) \<le> A - mn" and bl: "- (5 / 4) \<le> B - (mn + d)"
    and au: "A - mn + d / 85 < 9 / 2" and bu: "B - (mn + d) + d / 85 < 9 / 2"
    and AB: "0 \<le> A" "A \<le> B" "B \<le> 255"
    and m: "m1 = A / 255" "m2 = B / 255"
  shows "\<bar>uint (to_uchar (hslValue m1 m2 (real_of_int hi + off))) - c\<bar> \<le> 4"
proof -
  define rs where "rs = ramp (foldHue (H + off))"
  define rh where "rh = ramp (foldHue (real_of_int hi + off))"
  define V where "V = A + (B - A) * rh"
  have r01: "0 \<le> rh \<and> rh \<le> 1"
    unfolding rh_def using hi off foldHue_range [of "real_of_int hi + off"]
    by (intro ramp_range) simp_all
  have "\<bar>rh - rs\<bar> \<le> \<bar>(real_of_int hi + off) - (H + off)\<bar> * (2 / 85)"
    unfolding rh_def rs_def using hi H off by (intro ramp_fold_lipschitz) simp_all
  also have "\<dots> \<le> 1 / 2 * (2 / 85)" using hi(3) by (intro mult_right_mono) simp_all
  finally have rr: "\<bar>rh - rs\<bar> \<le> 1 / 85" by simp
  have ideal': "real_of_int c = mn + d * rs" using ideal by (simp only: rs_def)
  have r0: "0 \<le> rh" and r1: "rh \<le> 1" using r01 by simp_all
  note err = back_error [OF ideal' V_def rr r0 r1 d al bl au bu]
  have "0 \<le> (B - A) * rh" using AB r01 by simp
  then have V0: "0 \<le> V" using AB by (simp add: V_def)
  have "(B - A) * rh \<le> (B - A) * 1" using AB r01 by (intro mult_left_mono) simp_all
  then have V1: "V \<le> 255" using AB by (simp add: V_def)
  have val: "hslValue m1 m2 (real_of_int hi + off) = ROUND V"
    unfolding hslValue_ramp V_def rh_def m by (simp add: algebra_simps)
  have "0 \<le> ROUND V \<and> ROUND V \<le> 255" using V0 V1 by (rule round_range)
  then have "uint (to_uchar (ROUND V)) = ROUND V" by (simp add: uint_to_uchar_id)
  moreover have "\<bar>ROUND V - c\<bar> \<le> 4" using err V0 by (rule round_close)
  ultimately show ?thesis by (simp only: val)
qed

lemma abs_scale: "\<bar>x * (85 / 2)\<bar> = \<bar>x\<bar> * (85 / 2)" for x :: real
  by (simp add: abs_mult)

lemma hue_double_direct:
  fixes q :: real
  assumes q: "\<bar>q\<bar> \<le> 1"
  defines "h1 \<equiv> q * (85 / 2)"
  defines "k1 \<equiv> to_double (to_double q * (85 / 2))"
  shows "\<bar>(if k1 < 0 then to_double (k1 + 255) else if k1 > 255 then to_double (k1 - 255) else k1)
          - (if h1 < 0 then h1 + 255 else if h1 > 255 then h1 - 255 else h1)\<bar>
         \<le> 1 / 100000000000"
proof -
  define qd where "qd = to_double q"
  have e0: "\<bar>qd - q\<bar> \<le> 1 / 10000000000000"
    unfolding qd_def using q by (intro to_double_near) simp
  define u where "u = qd * (85 / 2)"
  have k1: "k1 = to_double u" by (simp add: k1_def u_def qd_def)
  have "\<bar>qd\<bar> \<le> 2" using e0 q by linarith
  moreover have "\<bar>u\<bar> = \<bar>qd\<bar> * (85 / 2)" by (simp add: u_def abs_mult)
  ultimately have ub: "\<bar>u\<bar> \<le> 512" by linarith
  have e1: "\<bar>k1 - u\<bar> \<le> 1 / 10000000000000" unfolding k1 using ub by (rule to_double_near)
  have uh: "\<bar>u - h1\<bar> \<le> 85 / 2 * (1 / 10000000000000)"
  proof -
    have eq: "u - h1 = (qd - q) * (85 / 2)" by (simp add: u_def h1_def algebra_simps)
    have "\<bar>u - h1\<bar> = \<bar>qd - q\<bar> * (85 / 2)" unfolding eq by (rule abs_scale)
    then show ?thesis using e0 by argo
  qed
  have hb: "\<bar>h1\<bar> \<le> 85 / 2" using q by (simp add: h1_def abs_mult)
  show ?thesis
  proof (cases "q < 0")
    case True
    then have "qd < 0" unfolding qd_def by (rule to_double_neg)
    then have "u < 0" by (simp add: u_def)
    then have kn: "k1 < 0" unfolding k1 by (rule to_double_neg)
    have hn: "h1 < 0" using True by (simp add: h1_def)
    have "\<bar>k1 + 255\<bar> \<le> 512" using e1 uh hb by linarith
    then have "\<bar>to_double (k1 + 255) - (k1 + 255)\<bar> \<le> 1 / 10000000000000" by (rule to_double_near)
    then have "\<bar>to_double (k1 + 255) - (h1 + 255)\<bar> \<le> 1 / 100000000000"
      using e1 uh by linarith
    then show ?thesis using kn hn by simp
  next
    case False
    then have "0 \<le> qd" unfolding qd_def by (intro to_double_nonneg) simp
    then have "0 \<le> u" by (simp add: u_def)
    then have kn: "\<not> k1 < 0" unfolding k1 using to_double_nonneg [of u] by simp
    have hn: "\<not> h1 < 0" using False by (simp add: h1_def)
    have k2: "\<not> k1 > 255" using e1 uh hb by linarith
    have h2: "\<not> h1 > 255" using hb by linarith
    have "\<bar>k1 - h1\<bar> \<le> 1 / 100000000000" using e1 uh by linarith
    then show ?thesis using kn hn k2 h2 by simp
  qed
qed

lemma hue_double_shifted:
  fixes q c :: real
  assumes q: "\<bar>q\<bar> \<le> 1" and c: "2 \<le> c" "c \<le> 4"
  defines "h1 \<equiv> (c + q) * (85 / 2)"
  defines "k1 \<equiv> to_double (to_double (c + to_double q) * (85 / 2))"
  shows "\<bar>(if k1 < 0 then to_double (k1 + 255) else if k1 > 255 then to_double (k1 - 255) else k1)
          - (if h1 < 0 then h1 + 255 else if h1 > 255 then h1 - 255 else h1)\<bar>
         \<le> 1 / 100000000000"
proof -
  define qd where "qd = to_double q"
  have e0: "\<bar>qd - q\<bar> \<le> 1 / 10000000000000"
    unfolding qd_def using q by (intro to_double_near) simp
  define w where "w = to_double (c + qd)"
  have "\<bar>c + qd\<bar> \<le> 512" using e0 q c by linarith
  then have e1: "\<bar>w - (c + qd)\<bar> \<le> 1 / 10000000000000" unfolding w_def by (rule to_double_near)
  have wp: "0 \<le> w" "w \<le> 6" using e0 e1 q c by linarith+
  define u where "u = w * (85 / 2)"
  have k1: "k1 = to_double u" by (simp add: k1_def u_def w_def qd_def)
  have up: "0 \<le> u" "u \<le> 255" using wp by (simp_all add: u_def)
  then have ub: "\<bar>u\<bar> \<le> 512" by linarith
  have e2: "\<bar>k1 - u\<bar> \<le> 1 / 10000000000000" unfolding k1 using ub by (rule to_double_near)
  have uh: "\<bar>u - h1\<bar> \<le> 85 / 2 * (2 / 10000000000000)"
  proof -
    have eq: "u - h1 = (w - (c + q)) * (85 / 2)" by (simp add: u_def h1_def algebra_simps)
    have "\<bar>u - h1\<bar> = \<bar>w - (c + q)\<bar> * (85 / 2)" unfolding eq by (rule abs_scale)
    moreover have "\<bar>w - (c + q)\<bar> \<le> 2 / 10000000000000" using e0 e1 by linarith
    ultimately show ?thesis by argo
  qed
  have hl: "85 / 2 \<le> h1" "h1 \<le> 425 / 2"
    using q c by (simp_all add: h1_def)
  have kn: "\<not> k1 < 0" unfolding k1 using to_double_nonneg [OF up(1)] by simp
  have k2: "\<not> k1 > 255" using e2 uh hl by linarith
  have hn: "\<not> h1 < 0" "\<not> h1 > 255" using hl by linarith+
  have "\<bar>k1 - h1\<bar> \<le> 1 / 100000000000" using e2 uh by linarith
  then show ?thesis using kn k2 hn by simp
qed

lemma hueDouble_near:
  fixes r g b :: int
  assumes r: "0 \<le> r" "r \<le> 255" and g: "0 \<le> g" "g \<le> 255" and b: "0 \<le> b" "b \<le> 255"
    and ne: "max r (max g b) \<noteq> min r (min g b)"
  shows "\<bar>hueDouble r g b - hueOf r g b\<bar> \<le> 1 / 100000000000"
proof -
  define d where "d = max r (max g b) - min r (min g b)"
  have dp: "0 < d" using ne by (simp add: d_def max_def min_def split: if_splits)
  have dr: "0 < real_of_int d" using dp by simp
  have q: "\<bar>real_of_int n / real_of_int d\<bar> \<le> 1" if "\<bar>n\<bar> \<le> d" for n
  proof -
    have "\<bar>real_of_int n\<bar> \<le> real_of_int d" using that by linarith
    then show ?thesis using dr by (simp add: field_simps)
  qed
  consider (red) "r = max r (max g b)" | (green) "r \<noteq> max r (max g b)" "g = max r (max g b)"
    | (blue) "r \<noteq> max r (max g b)" "g \<noteq> max r (max g b)"
    by blast
  then show ?thesis
  proof cases
    case red
    have "\<bar>g - b\<bar> \<le> d" using red by (simp add: d_def max_def min_def split: if_splits)
    from hue_double_direct [OF q [OF this]] show ?thesis
      unfolding hueDouble_def hueOf_def Let_def d_def [symmetric]
      by (simp only: if_P [OF red])
  next
    case green
    have "\<bar>b - r\<bar> \<le> d" using green by (simp add: d_def max_def min_def split: if_splits)
    from hue_double_shifted [OF q [OF this], of 2] show ?thesis
      unfolding hueDouble_def hueOf_def Let_def d_def [symmetric]
      by (simp only: if_not_P [OF green(1)] if_P [OF green(2)])
  next
    case blue
    have "\<bar>r - g\<bar> \<le> d" using blue by (simp add: d_def max_def min_def split: if_splits)
    from hue_double_shifted [OF q [OF this], of 4] show ?thesis
      unfolding hueDouble_def hueOf_def Let_def d_def [symmetric]
      by (simp only: if_not_P [OF blue(1)] if_not_P [OF blue(2)])
  qed
qed

lemma hueOf_rational:
  fixes r g b :: int
  assumes ne: "max r (max g b) \<noteq> min r (min g b)"
  shows "\<exists>N. hueOf r g b + 1 / 2 =
           real_of_int N / real_of_int (2 * (max r (max g b) - min r (min g b)))"
proof -
  define d where "d = max r (max g b) - min r (min g b)"
  have dp: "0 < d" using ne by (simp add: d_def max_def min_def split: if_splits)
  have dr: "0 < real_of_int d" using dp by simp
  have form: "\<exists>N. (if h0 * (85 / 2) < 0 then h0 * (85 / 2) + 255
                     else if h0 * (85 / 2) > 255 then h0 * (85 / 2) - 255
                     else h0 * (85 / 2)) + 1 / 2
                 = real_of_int N / real_of_int (2 * d)"
    if h0: "h0 = real_of_int m / real_of_int d" for h0 m
  proof -
    have 1: "h0 * (85 / 2) + 1 / 2 = real_of_int (85 * m + d) / real_of_int (2 * d)"
      using dr by (simp add: h0 field_simps)
    have 2: "h0 * (85 / 2) + 255 + 1 / 2 = real_of_int (85 * m + 511 * d) / real_of_int (2 * d)"
      using dr by (simp add: h0 field_simps)
    have 3: "h0 * (85 / 2) - 255 + 1 / 2 = real_of_int (85 * m - 509 * d) / real_of_int (2 * d)"
      using dr by (simp add: h0 field_simps)
    show ?thesis
    proof (cases "h0 * (85 / 2) < 0")
      case True
      then show ?thesis using 2 by (simp only: if_P) blast
    next
      case False
      note F = this
      show ?thesis
      proof (cases "h0 * (85 / 2) > 255")
        case True
        then show ?thesis using 3 F by (simp only: if_P if_not_P if_False) blast
      next
        case False
        then show ?thesis using 1 F by (simp only: if_not_P if_False) blast
      qed
    qed
  qed
  consider (red) "r = max r (max g b)" | (green) "r \<noteq> max r (max g b)" "g = max r (max g b)"
    | (blue) "r \<noteq> max r (max g b)" "g \<noteq> max r (max g b)"
    by blast
  then show ?thesis
  proof cases
    case red
    have "real_of_int (g - b) / real_of_int d = real_of_int (g - b) / real_of_int d" ..
    from form [OF this] show ?thesis
      unfolding hueOf_def Let_def d_def [symmetric]
      by (simp only: if_P [OF red])
  next
    case green
    have "2 + real_of_int (b - r) / real_of_int d = real_of_int (2 * d + (b - r)) / real_of_int d"
      using dr by (simp add: field_simps)
    from form [OF this] show ?thesis
      unfolding hueOf_def Let_def d_def [symmetric]
      by (simp only: if_not_P [OF green(1)] if_P [OF green(2)])
  next
    case blue
    have "4 + real_of_int (r - g) / real_of_int d = real_of_int (4 * d + (r - g)) / real_of_int d"
      using dr by (simp add: field_simps)
    from form [OF this] show ?thesis
      unfolding hueOf_def Let_def d_def [symmetric]
      by (simp only: if_not_P [OF blue(1)] if_not_P [OF blue(2)])
  qed
qed

lemma hue_stored:
  fixes r g b :: int
  assumes r: "0 \<le> r" "r \<le> 255" and g: "0 \<le> g" "g \<le> 255" and b: "0 \<le> b" "b \<le> 255"
    and ne: "max r (max g b) \<noteq> min r (min g b)"
    and H: "0 \<le> hueOf r g b" "hueOf r g b \<le> 255"
  shows "0 \<le> ROUND_double (hueDouble r g b)" and "ROUND_double (hueDouble r g b) \<le> 255"
    and "\<bar>real_of_int (ROUND_double (hueDouble r g b)) - hueOf r g b\<bar> \<le> 1 / 2"
proof -
  define d where "d = max r (max g b) - min r (min g b)"
  define y where "y = to_double (hueDouble r g b + 1 / 2)"
  have dp: "0 < d" using ne by (simp add: d_def max_def min_def split: if_splits)
  have d1: "d \<le> 255" using r g b by (simp add: d_def max_def min_def)
  note e0 = hueDouble_near [OF r g b ne]
  have "\<bar>hueDouble r g b + 1 / 2\<bar> \<le> 512" using e0 H by linarith
  then have e1: "\<bar>y - (hueDouble r g b + 1 / 2)\<bar> \<le> 1 / 10000000000000"
    unfolding y_def by (rule to_double_near)
  have "0 \<le> hueDouble r g b + 1 / 2" using e0 H by linarith
  then have y0: "0 \<le> y" unfolding y_def by (rule to_double_nonneg)
  then have R: "ROUND_double (hueDouble r g b) = \<lfloor>y\<rfloor>"
    by (simp add: ROUND_double_def c_trunc_def y_def)
  obtain N where N: "hueOf r g b + 1 / 2 = real_of_int N / real_of_int (2 * d)"
    using hueOf_rational [OF ne] unfolding d_def by blast
  have "real_of_int (2 * d) \<le> 510" using d1 by simp
  moreover have "0 < real_of_int (2 * d)" using dp by simp
  ultimately have "1 / 510 \<le> 1 / real_of_int (2 * d)" by (intro divide_left_mono) simp_all
  moreover have "\<bar>y - (hueOf r g b + 1 / 2)\<bar> \<le> 2 / 100000000000" using e0 e1 by linarith
  ultimately have "\<bar>y - (hueOf r g b + 1 / 2)\<bar> < 1 / real_of_int (2 * d)" by linarith
  with dp N have near: "\<bar>real_of_int \<lfloor>y\<rfloor> - hueOf r g b\<bar> \<le> 1 / 2"
    by (intro floor_near_tie [where M = "2 * d" and N = N]) simp_all
  then show "\<bar>real_of_int (ROUND_double (hueDouble r g b)) - hueOf r g b\<bar> \<le> 1 / 2"
    by (simp only: R)
  show "0 \<le> ROUND_double (hueDouble r g b)" unfolding R using y0 by simp
  have "real_of_int \<lfloor>y\<rfloor> \<le> 255 + 1 / 2" using near H by linarith
  then show "ROUND_double (hueDouble r g b) \<le> 255" unfolding R by linarith
qed

lemma max_min_macros:
  "(if r > g then (MAX_macro r b, MIN_macro g b) else (MAX_macro g b, MIN_macro r b))
     = (max r (max g b), min r (min g b))"
  by (simp add: MAX_macro_def MIN_macro_def max_def min_def)

lemma rgbToHsl_grey:
  assumes "0 \<le> v" and "v \<le> 255"
  shows "rgbToHsl v v v = (0, 0, to_uchar v)"
proof -
  have "real_of_int (v + v) / 2 = real_of_int v" by simp
  moreover have "to_double (real_of_int v) = real_of_int v" using assms by (intro to_double_int) simp
  moreover have "ROUND_double (real_of_int v) = v"
  proof -
    have e: "real_of_int v + 1 / 2 = real_of_int (2 * v + 1) / 2" by simp
    have "to_double (real_of_int (2 * v + 1) / 2) = real_of_int (2 * v + 1) / 2"
      using assms by (intro to_double_half) simp
    then have "to_double (real_of_int v + 1 / 2) = real_of_int v + 1 / 2" by (simp only: e)
    moreover have "\<lfloor>real_of_int v + 1 / 2\<rfloor> = v" by linarith
    moreover have "0 \<le> real_of_int v + 1 / 2" using assms by simp
    ultimately show ?thesis by (simp only: ROUND_double_def c_trunc_def if_True)
  qed
  ultimately show ?thesis
    unfolding rgbToHsl_def max_min_macros
    by (simp only: Let_def prod.case max.idem min.idem if_True) (simp add: to_uchar_def ROUND_double_0)
qed

lemma rgbToHsl_chromatic:
  fixes r g b :: int
  assumes r: "0 \<le> r" "r \<le> 255" and g: "0 \<le> g" "g \<le> 255" and b: "0 \<le> b" "b \<le> 255"
    and ne: "max r (max g b) \<noteq> min r (min g b)"
  shows "rgbToHsl r g b =
    (let mx = max r (max g b); mn = min r (min g b);
         L = real_of_int (mx + mn) / 2;
         S = (if L < 128 then 255 * real_of_int (mx - mn) / real_of_int (mx + mn)
              else 255 * real_of_int (mx - mn) / real_of_int (511 - mx - mn))
     in (to_uchar (ROUND_double (hueDouble r g b)), to_uchar (ROUND S), to_uchar (ROUND L)))"
proof -
  define mx where "mx = max r (max g b)"
  define mn where "mn = min r (min g b)"
  have mn0: "0 \<le> mn" using r g b by (simp add: mn_def)
  have mx1: "mx \<le> 255" using r g b by (simp add: mx_def)
  have lt: "mn < mx" using ne unfolding mx_def mn_def by (simp add: max_def min_def split: if_splits)
  have sum: "0 \<le> mx + mn" "mx + mn < 1000000" using mn0 mx1 lt by simp_all
  note LL = ROUND_double_half_integer [OF sum]
  have S1: "ROUND_double (to_double (255 * real_of_int (mx - mn) / real_of_int (mx + mn)))
              = ROUND (255 * real_of_int (mx - mn) / real_of_int (mx + mn))"
    using ROUND_double_quotient [of "255 * (mx - mn)" "mx + mn"] mn0 mx1 lt by simp
  have S2: "ROUND_double (to_double (255 * real_of_int (mx - mn) / real_of_int (511 - mx - mn)))
              = ROUND (255 * real_of_int (mx - mn) / real_of_int (511 - mx - mn))"
    using ROUND_double_quotient [of "255 * (mx - mn)" "511 - mx - mn"] mn0 mx1 lt by simp
  have ne': "mx \<noteq> mn" using lt by simp
  show ?thesis
  proof (cases "real_of_int (mx + mn) / 2 < 128")
    case True
    show ?thesis
      unfolding rgbToHsl_def max_min_macros hueDouble_def mx_def [symmetric] mn_def [symmetric]
      unfolding Let_def prod.case LL(1)
      by (simp only: if_not_P [OF ne'] if_P [OF True] prod.case LL(2) S1)
  next
    case False
    show ?thesis
      unfolding rgbToHsl_def max_min_macros hueDouble_def mx_def [symmetric] mn_def [symmetric]
      unfolding Let_def prod.case LL(1)
      by (simp only: if_not_P [OF ne'] if_not_P [OF False] prod.case LL(2) S2)
  qed
qed

lemma rgbToHsl_value:
  fixes r g b h :: int
  assumes r: "0 \<le> r" "r \<le> 255" and g: "0 \<le> g" "g \<le> 255" and b: "0 \<le> b" "b \<le> 255"
    and ne: "max r (max g b) \<noteq> min r (min g b)"
    and H: "0 \<le> hueOf r g b" "hueOf r g b \<le> 255"
    and h: "\<bar>real_of_int h - hueOf r g b\<bar> < 1 / 2"
  shows "rgbToHsl r g b =
    (let mx = max r (max g b); mn = min r (min g b);
         L = real_of_int (mx + mn) / 2;
         S = (if L < 128 then 255 * real_of_int (mx - mn) / real_of_int (mx + mn)
              else 255 * real_of_int (mx - mn) / real_of_int (511 - mx - mn))
     in (to_uchar h, to_uchar (ROUND S), to_uchar (ROUND L)))"
proof -
  have "\<bar>real_of_int (ROUND_double (hueDouble r g b)) - hueOf r g b\<bar> \<le> 1 / 2"
    using r g b ne H by (rule hue_stored(3))
  then have "ROUND_double (hueDouble r g b) = h" using h by linarith
  then show ?thesis using rgbToHsl_chromatic [OF r g b ne] by simp
qed

lemma hue_ideal:
  fixes r g b :: int
  assumes ne: "max r (max g b) \<noteq> min r (min g b)"
    and mn: "mn = min r (min g b)" and d: "d = max r (max g b) - min r (min g b)"
    and H: "H = hueOf r g b"
  shows "real_of_int r = real_of_int mn + real_of_int d * ramp (foldHue (H + 85))"
    and "real_of_int g = real_of_int mn + real_of_int d * ramp (foldHue (H + 0))"
    and "real_of_int b = real_of_int mn + real_of_int d * ramp (foldHue (H + - 85))"
    and "0 \<le> H" and "H \<le> 255"
proof -
  have dp: "0 < d" using ne d by (simp add: max_def min_def split: if_splits)
  consider (red) "r = max r (max g b)" | (green) "r \<noteq> max r (max g b)" "g = max r (max g b)"
    | (blue) "r \<noteq> max r (max g b)" "g \<noteq> max r (max g b)"
    by blast
  then have "real_of_int r = real_of_int mn + real_of_int d * ramp (foldHue (H + 85)) \<and>
    real_of_int g = real_of_int mn + real_of_int d * ramp (foldHue H) \<and>
    real_of_int b = real_of_int mn + real_of_int d * ramp (foldHue (H - 85)) \<and>
    0 \<le> H \<and> H < 255"
  proof cases
    case red
    then have o: "g \<le> r" "b \<le> r" by (simp_all add: max_def split: if_splits)
    then have m': "mn = min g b" and d': "d = r - min g b"
      using mn d by (simp_all add: max_def min_def)
    have Heq: "H = (if (real_of_int (g - b) / real_of_int d) * (85 / 2) < 0
                    then (real_of_int (g - b) / real_of_int d) * (85 / 2) + 255
                    else if (real_of_int (g - b) / real_of_int d) * (85 / 2) > 255
                    then (real_of_int (g - b) / real_of_int d) * (85 / 2) - 255
                    else (real_of_int (g - b) / real_of_int d) * (85 / 2))"
      unfolding H hueOf_def Let_def d [symmetric] by (simp only: if_P [OF red])
    have 1: "real_of_int g \<le> real_of_int r" "real_of_int b \<le> real_of_int r"
      using o by simp_all
    have 2: "real_of_int d = real_of_int r - min (real_of_int g) (real_of_int b)"
      using d' by (simp add: min_def)
    have 3: "0 < real_of_int d" using dp by simp
    have 4: "real_of_int (g - b) / real_of_int d = (real_of_int g - real_of_int b) / real_of_int d"
      by simp
    have 5: "min (real_of_int g) (real_of_int b) = real_of_int mn"
      using m' by (simp add: min_def)
    note I = ideal_red_max [OF 1 2 3 4 Heq]
    from I [unfolded 5] show ?thesis by blast
  next
    case green
    then have o: "r \<le> g" "b \<le> g" by (simp_all add: max_def split: if_splits)
    then have m': "mn = min r b" and d': "d = g - min r b"
      using mn d by (simp_all add: max_def min_def)
    have Heq: "H = (if (2 + real_of_int (b - r) / real_of_int d) * (85 / 2) < 0
                    then (2 + real_of_int (b - r) / real_of_int d) * (85 / 2) + 255
                    else if (2 + real_of_int (b - r) / real_of_int d) * (85 / 2) > 255
                    then (2 + real_of_int (b - r) / real_of_int d) * (85 / 2) - 255
                    else (2 + real_of_int (b - r) / real_of_int d) * (85 / 2))"
      unfolding H hueOf_def Let_def d [symmetric] by (simp only: if_not_P [OF green(1)] if_P [OF green(2)])
    have 1: "real_of_int r \<le> real_of_int g" "real_of_int b \<le> real_of_int g"
      using o by simp_all
    have 2: "real_of_int d = real_of_int g - min (real_of_int r) (real_of_int b)"
      using d' by (simp add: min_def)
    have 3: "0 < real_of_int d" using dp by simp
    have 4: "real_of_int (b - r) / real_of_int d = (real_of_int b - real_of_int r) / real_of_int d"
      by simp
    have 5: "min (real_of_int r) (real_of_int b) = real_of_int mn"
      using m' by (simp add: min_def)
    note I = ideal_green_max [OF 1 2 3 4 Heq]
    from I [unfolded 5] show ?thesis by blast
  next
    case blue
    then have o: "r \<le> b" "g \<le> b" by (simp_all add: max_def split: if_splits)
    then have m': "mn = min r g" and d': "d = b - min r g"
      using mn d by (simp_all add: max_def min_def)
    have Heq: "H = (if (4 + real_of_int (r - g) / real_of_int d) * (85 / 2) < 0
                    then (4 + real_of_int (r - g) / real_of_int d) * (85 / 2) + 255
                    else if (4 + real_of_int (r - g) / real_of_int d) * (85 / 2) > 255
                    then (4 + real_of_int (r - g) / real_of_int d) * (85 / 2) - 255
                    else (4 + real_of_int (r - g) / real_of_int d) * (85 / 2))"
      unfolding H hueOf_def Let_def d [symmetric] by (simp only: if_not_P [OF blue(1)] if_not_P [OF blue(2)])
    have 1: "real_of_int r \<le> real_of_int b" "real_of_int g \<le> real_of_int b"
      using o by simp_all
    have 2: "real_of_int d = real_of_int b - min (real_of_int r) (real_of_int g)"
      using d' by (simp add: min_def)
    have 3: "0 < real_of_int d" using dp by simp
    have 4: "real_of_int (r - g) / real_of_int d = (real_of_int r - real_of_int g) / real_of_int d"
      by simp
    have 5: "min (real_of_int r) (real_of_int g) = real_of_int mn"
      using m' by (simp add: min_def)
    note I = ideal_blue_max [OF 1 2 3 4 Heq]
    from I [unfolded 5] show ?thesis by blast
  qed
  then show "real_of_int r = real_of_int mn + real_of_int d * ramp (foldHue (H + 85))"
    and "real_of_int g = real_of_int mn + real_of_int d * ramp (foldHue (H + 0))"
    and "real_of_int b = real_of_int mn + real_of_int d * ramp (foldHue (H + - 85))"
    and "0 \<le> H" and "H \<le> 255" by simp_all
qed

lemma round_trip_grey:
  assumes "0 \<le> v" and "v \<le> 255"
  shows "roundTrip v v v = (to_uchar v, to_uchar v, to_uchar v)"
proof -
  have 1: "rgbToHsl v v v = (0, 0, to_uchar v)"
    using assms by (rule rgbToHsl_grey)
  have 2: "hslToRgb 0 0 (real_of_int v) = (to_uchar v, to_uchar v, to_uchar v)"
    by (simp add: hslToRgb_def c_trunc_def)
  have 3: "real_of_int (uint (to_uchar v)) = real_of_int v"
    using assms by (simp only: uint_to_uchar_id)
  show ?thesis
    by (simp del: of_int_uint add: roundTrip_def 1 2 3)
qed

lemma round_trip_chromatic:
  fixes r g b :: int
  assumes r: "0 \<le> r" "r \<le> 255" and g: "0 \<le> g" "g \<le> 255" and b: "0 \<le> b" "b \<le> 255"
    and ne: "max r (max g b) \<noteq> min r (min g b)"
  shows "\<exists>r' g' b'. roundTrip r g b = (to_uchar r', to_uchar g', to_uchar b') \<and>
           \<bar>uint (to_uchar r') - r\<bar> \<le> 4 \<and> \<bar>uint (to_uchar g') - g\<bar> \<le> 4 \<and>
           \<bar>uint (to_uchar b') - b\<bar> \<le> 4"
proof -
  define mx where "mx = max r (max g b)"
  define mn where "mn = min r (min g b)"
  define d where "d = mx - mn"
  define L where "L = real_of_int (mx + mn) / 2"
  define S where "S = (if L < 128 then 255 * real_of_int (mx - mn) / real_of_int (mx + mn)
                       else 255 * real_of_int (mx - mn) / real_of_int (511 - mx - mn))"
  define H where "H = hueOf r g b"
  define l where "l = real_of_int (ROUND L)"
  define s where "s = real_of_int (ROUND S)"
  define m2 where "m2 = (if l < 128 then (l * (255 + s)) / 65025 else (l + s - (l * s) / 255) / 255)"
  define m1 where "m1 = (l / (255 / 2)) - m2"
  have mn0: "0 \<le> mn" using r g b by (simp add: mn_def)
  have mx1: "mx \<le> 255" using r g b by (simp add: mx_def)
  have lt: "mn < mx" using ne unfolding mx_def mn_def by (simp add: max_def min_def split: if_splits)
  note LS = lightness_saturation_back [OF mn0 lt mx1 L_def S_def l_def s_def m2_def m1_def]
  have d': "d = max r (max g b) - min r (min g b)" by (simp add: d_def mx_def mn_def)
  note HI = hue_ideal [OF ne mn_def d' H_def]
  define hd where "hd = ROUND_double (hueDouble r g b)"
  note HS = hue_stored [OF r g b ne HI(4,5) [unfolded H_def]]
  have hr: "0 \<le> hd \<and> hd \<le> 255"
    using HS(1,2) by (simp add: hd_def)
  have he: "\<bar>real_of_int hd - H\<bar> \<le> 1 / 2" using HS(3) by (simp only: hd_def H_def)
  have fwd: "rgbToHsl r g b = (to_uchar hd, to_uchar (ROUND S), to_uchar (ROUND L))"
    using rgbToHsl_chromatic [OF r g b ne]
    by (simp add: Let_def hd_def S_def L_def mx_def mn_def)
  have u: "real_of_int (uint (to_uchar hd)) = real_of_int hd"
    "real_of_int (uint (to_uchar (ROUND S))) = s"
    "real_of_int (uint (to_uchar (ROUND L))) = l"
  proof -
    have "0 \<le> ROUND S" "ROUND S \<le> 255" using LS(2) by linarith+
    then show "real_of_int (uint (to_uchar (ROUND S))) = s"
      by (simp only: uint_to_uchar_id s_def)
    show "real_of_int (uint (to_uchar hd)) = real_of_int hd"
      using hr by (simp only: uint_to_uchar_id)
    show "real_of_int (uint (to_uchar (ROUND L))) = l"
      using LS(1) by (simp only: uint_to_uchar_id l_def)
  qed
  have sne: "s \<noteq> 0" using LS(2) by (simp add: s_def)
  have conv: "roundTrip r g b =
      (to_uchar (hslValue m1 m2 (real_of_int hd + 85)),
       to_uchar (hslValue m1 m2 (real_of_int hd)),
       to_uchar (hslValue m1 m2 (real_of_int hd - 85)))"
  proof -
    have "roundTrip r g b = hslToRgb (real_of_int hd) s l"
      unfolding roundTrip_def fwd by (simp only: Let_def prod.case u)
    then show ?thesis using sne by (simp add: hslToRgb_def Let_def m2_def m1_def)
  qed
  have dd: "0 \<le> real_of_int d" "real_of_int d \<le> 255"
    using lt mn0 mx1 by (simp_all add: d_def)
  have mm: "m1 = 255 * m1 / 255" "m2 = 255 * m2 / 255" by simp_all
  have b2: "- (5 / 4) \<le> 255 * m2 - (real_of_int mn + real_of_int d)"
    using LS(4) by (simp only: d_def)
  have a3: "255 * m1 - real_of_int mn + real_of_int d / 85 < 9 / 2"
    using LS(5) by (simp only: d_def)
  have b3: "255 * m2 - (real_of_int mn + real_of_int d) + real_of_int d / 85 < 9 / 2"
    using LS(6) by (simp only: d_def)
  have cr: "\<bar>uint (to_uchar (hslValue m1 m2 (real_of_int hd + 85))) - r\<bar> \<le> 4"
    using hr he by (intro channel_back [OF HI(1) _ _ HI(4,5) _ _ _ dd LS(3) b2 a3 b3 LS(7,8,9) mm]) simp_all
  have cg: "\<bar>uint (to_uchar (hslValue m1 m2 (real_of_int hd + 0))) - g\<bar> \<le> 4"
    using hr he by (intro channel_back [OF HI(2) _ _ HI(4,5) _ _ _ dd LS(3) b2 a3 b3 LS(7,8,9) mm]) simp_all
  have cb: "\<bar>uint (to_uchar (hslValue m1 m2 (real_of_int hd + - 85))) - b\<bar> \<le> 4"
    using hr he by (intro channel_back [OF HI(3) _ _ HI(4,5) _ _ _ dd LS(3) b2 a3 b3 LS(7,8,9) mm]) simp_all
  show ?thesis
    using conv cr cg cb by (intro exI conjI) simp_all
qed

text \<open>
  C1, as the code has it. For 8-bit channel values the round trip through \<^verbatim>\<open>rgbToHsl\<close>
  and \<^verbatim>\<open>hslToRgb\<close> returns channels that each differ from the original by at most 4,
  and 4 is reached. The hue that \<^verbatim>\<open>rgbToHsl\<close> stores is within 1/2 of the exact hue, also
  where the \<^verbatim>\<open>double\<close> computation rounds a tie down. The rounding of lightness and
  saturation to 8 bits moves the two extreme levels down by at most 5/4 and up by at most
  7/4, the rounding of the hue moves the position on the ramp by at most 1/85 of the
  channel spread, and the final rounding adds 1/2; the upward shift and the spread are
  never both large.
\<close>

theorem round_trip_within_4:
  fixes r g b :: int
  assumes "0 \<le> r" "r \<le> 255" "0 \<le> g" "g \<le> 255" "0 \<le> b" "b \<le> 255"
  shows "case roundTrip r g b of (r', g', b') \<Rightarrow>
           \<bar>uint r' - r\<bar> \<le> 4 \<and> \<bar>uint g' - g\<bar> \<le> 4 \<and> \<bar>uint b' - b\<bar> \<le> 4"
proof (cases "max r (max g b) = min r (min g b)")
  case True
  then have "g = r" "b = r" by (simp_all add: max_def min_def split: if_splits)
  then show ?thesis
    using round_trip_grey [of r] assms by (simp add: uint_to_uchar_id)
next
  case False
  from round_trip_chromatic [OF assms False] show ?thesis by auto
qed

theorem round_trip_within_4_witness:
  "case roundTrip 0 167 249 of (r', g', b') \<Rightarrow>
     \<bar>uint r' - 0\<bar> \<le> 4 \<and> \<bar>uint g' - 167\<bar> \<le> 4 \<and> \<bar>uint b' - 249\<bar> \<le> 4"
  using round_trip_within_4 [of 0 167 249] by simp

text \<open>
  C1 as stated fails: (0, 167, 249) has hue 141, saturation 255 and lightness 125, and
  comes back as (0, 171, 250); green is off by 4.
\<close>

theorem round_trip_counterexample:
  "roundTrip 0 167 249 = (0, 171, 250)"
proof -
  have H: "hueOf 0 167 249 = 70465 / 498" by (simp add: hueOf_def)
  have "rgbToHsl 0 167 249 = (to_uchar 141, to_uchar (ROUND 255), to_uchar (ROUND (249 / 2)))"
    using rgbToHsl_value [of 0 167 249 141] by (simp add: H)
  then have "rgbToHsl 0 167 249 = (141, 255, 125)"
    by (simp add: ROUND_def c_trunc_def to_uchar_def)
  moreover have "hslToRgb 141 255 125 = (0, 171, 250)" by (simp add: hsl_eval)
  ultimately show ?thesis by (simp add: roundTrip_def)
qed

text \<open>
  A hue on a tie. The exact hue of (0, 17, 1) and of (0, 51, 3) is 87.5, which \<^verbatim>\<open>ROUND\<close>
  would take to 88; the \<^verbatim>\<open>double\<close> computation arrives a little below 87.5 and stores 87.
\<close>

lemma hueDouble_tie: "hueDouble 0 17 1 = 6157265115545599 / 70368744177664"
proof -
  have q: "to_double (1 / 17) = 4238682002231055 / 72057594037927936"
    unfolding to_double_def
    by (subst fround_eval [of "- 5"]) (simp_all add: rne_eval power_int_minus)
  have h0: "to_double (148353870078086927 / 72057594037927936) = 579507304992527 / 281474976710656"
    unfolding to_double_def
    by (subst fround_eval [of 1]) (simp_all add: rne_eval power_int_minus)
  have h1: "to_double (49258120924364795 / 562949953421312) = 6157265115545599 / 70368744177664"
    unfolding to_double_def
    by (subst fround_eval [of 6]) (simp_all add: rne_eval power_int_minus)
  show ?thesis by (simp add: hueDouble_def q h0 h1)
qed

lemma rgbToHsl_tie:
  "hueOf 0 17 1 = 175 / 2" and "ROUND (hueOf 0 17 1) = 88" and "rgbToHsl 0 17 1 = (87, 255, 9)"
proof -
  show "hueOf 0 17 1 = 175 / 2" by (simp add: hueOf_def)
  show "ROUND (hueOf 0 17 1) = 88" by (simp add: hueOf_def ROUND_def c_trunc_def)
  have y: "to_double (6192449487634431 / 70368744177664) = 6192449487634431 / 70368744177664"
    unfolding to_double_def
    by (subst fround_eval [of 6]) (simp_all add: rne_eval power_int_minus)
  have "ROUND_double (hueDouble 0 17 1) = 87"
    by (simp add: ROUND_double_def hueDouble_tie y c_trunc_def)
  then have "rgbToHsl 0 17 1 = (to_uchar 87, to_uchar (ROUND 255), to_uchar (ROUND (17 / 2)))"
    using rgbToHsl_chromatic [of 0 17 1] by simp
  then show "rgbToHsl 0 17 1 = (87, 255, 9)" by (simp add: ROUND_def c_trunc_def to_uchar_def)
qed

lemma round_trip_tie: "roundTrip 0 51 3 = (0, 52, 2)"
proof -
  have "hueDouble 0 51 3 = hueDouble 0 17 1" by (simp add: hueDouble_def)
  then have h: "hueDouble 0 51 3 = 6157265115545599 / 70368744177664"
    by (simp only: hueDouble_tie)
  have y: "to_double (6192449487634431 / 70368744177664) = 6192449487634431 / 70368744177664"
    unfolding to_double_def
    by (subst fround_eval [of 6]) (simp_all add: rne_eval power_int_minus)
  have "ROUND_double (hueDouble 0 51 3) = 87"
    by (simp add: ROUND_double_def h y c_trunc_def)
  then have "rgbToHsl 0 51 3 = (to_uchar 87, to_uchar (ROUND 255), to_uchar (ROUND (51 / 2)))"
    using rgbToHsl_chromatic [of 0 51 3] by simp
  then have "rgbToHsl 0 51 3 = (87, 255, 26)"
    by (simp add: ROUND_def c_trunc_def to_uchar_def)
  moreover have "hslToRgb 87 255 26 = (0, 52, 2)" by (simp add: hsl_eval)
  ultimately show ?thesis by (simp add: roundTrip_def)
qed

subsection \<open>Grading with the neutral parameters\<close>

lemma neutral_gain: "bound0To255 (c_div (uint (c :: uchar) * 100) 100) = uint c"
  using uchar_range [of c] by (simp add: c_div_def bound0To255_def)

lemma bright_100_lookup: "brightTransform 100 ! unat (c :: uchar) = c"
  using uchar_range [of c] brightTransform_nth [of "uint c" 100] brightEntry_100 [of "uint c"]
  by simp

lemma contrast_0_lookup: "contrastTransform 0 ! unat (c :: uchar) = (if 128 \<le> uint c then 255 else 0)"
  using uchar_range [of c] contrastTransform_nth [of "uint c" 0]
  by (simp add: contrastEntry_0)

lemma neutral_scale: "to_uchar (bound0To255 (c_div (uint (c :: uchar) * 100) 100)) = c"
  by (simp add: neutral_gain)

lemma gradePixel_identity_settings:
  "gradePixel identity_settings (contrastTransform 0) (brightTransform 100) ha px =
     (let (h, s, l) = rgbToHsl (threshold128 (qRed px)) (threshold128 (qGreen px)) (threshold128 (qBlue px));
          (hr, hg, hb) = hslToRgb (real_of_int (uint h)) (real_of_int (uint s)) (real_of_int (uint l))
      in \<lparr>qAlpha = (if ha then qAlpha px else 255), qRed = hr, qGreen = hg, qBlue = hb\<rparr>)"
proof -
  have t: "uint (contrastTransform 0 ! unat c) = threshold128 c" for c :: uchar
    by (simp add: contrast_0_lookup threshold128_def)
  show ?thesis
    by (simp add: gradePixel_def identity_settings_def Let_def neutral_gain bound0To255_uchar
        bright_100_lookup t neutral_scale newHue_def qRgba_def qRgb_def split: prod.splits)
qed


text \<open>
  C2, as the code has it. With saturation 100, lightness 100, hue 0, colorize off, all
  channels enabled, no negation, gains 0, brightness 100 and contrast 0 the stage is not
  the identity: the contrast table for 0 is the step at 128, so every colour channel is
  replaced by 0 (below 128) or 255, and the pixel written back is the HSL round trip of
  these three values. Alpha is kept (and is 255 for an image without alpha channel).
\<close>

theorem identity_parameters_threshold_channels:
  assumes "y < length (scanLines img)" and "x < length (scanLines img ! y)"
  shows "scanLines (colorize identity_settings img) ! y ! x =
     (let px = scanLines img ! y ! x;
          (h, s, l) = rgbToHsl (threshold128 (qRed px)) (threshold128 (qGreen px)) (threshold128 (qBlue px));
          (hr, hg, hb) = hslToRgb (real_of_int (uint h)) (real_of_int (uint s)) (real_of_int (uint l))
      in \<lparr>qAlpha = (if hasAlphaChannel img then qAlpha px else 255),
          qRed = hr, qGreen = hg, qBlue = hb\<rparr>)"
proof -
  have "contrastVal identity_settings = 0" "brightVal identity_settings = 100"
    by (simp_all add: identity_settings_def)
  then show ?thesis
    using assms by (simp add: colorize_nth gradePixel_identity_settings Let_def)
qed

lemma hsl_of_green: "rgbToHsl 0 255 0 = (85, 255, 128)"
proof -
  have H: "hueOf 0 255 0 = 85" by (simp add: hueOf_def)
  have "rgbToHsl 0 255 0 = (to_uchar 85, to_uchar (ROUND 255), to_uchar (ROUND (255 / 2)))"
    using rgbToHsl_value [of 0 255 0 85] by (simp add: H)
  then show ?thesis by (simp add: ROUND_def c_trunc_def to_uchar_def)
qed

lemma rgb_of_green: "hslToRgb 85 255 128 = (1, 255, 1)"
  by (simp add: hsl_eval)

theorem identity_parameters_threshold_channels_witness:
  "scanLines (colorize identity_settings
      (one_pixel_image \<lparr>qAlpha = 200, qRed = 10, qGreen = 200, qBlue = 30\<rparr>)) ! 0 ! 0
   = \<lparr>qAlpha = 200, qRed = 1, qGreen = 255, qBlue = 1\<rparr>"
  using identity_parameters_threshold_channels
    [of 0 "one_pixel_image \<lparr>qAlpha = 200, qRed = 10, qGreen = 200, qBlue = 30\<rparr>" 0]
  by (simp add: one_pixel_image_def threshold128_def hsl_of_green rgb_of_green)

text \<open>
  C2 as stated fails: the opaque pixel (10, 20, 30) becomes (0, 0, 0).
\<close>

theorem identity_parameters_counterexample:
  "colorize identity_settings (one_pixel_image \<lparr>qAlpha = 255, qRed = 10, qGreen = 20, qBlue = 30\<rparr>)
     = one_pixel_image \<lparr>qAlpha = 255, qRed = 0, qGreen = 0, qBlue = 0\<rparr> \<and>
   colorize identity_settings (one_pixel_image \<lparr>qAlpha = 255, qRed = 10, qGreen = 20, qBlue = 30\<rparr>)
     \<noteq> one_pixel_image \<lparr>qAlpha = 255, qRed = 10, qGreen = 20, qBlue = 30\<rparr>"
proof -
  have "contrastVal identity_settings = 0" "brightVal identity_settings = 100"
    by (simp_all add: identity_settings_def)
  moreover have "rgbToHsl 0 0 0 = (0, 0, 0)" using rgbToHsl_grey [of 0] by (simp add: to_uchar_def)
  moreover have "hslToRgb 0 0 0 = (0, 0, 0)" by (simp add: hsl_eval)
  ultimately show ?thesis
    by (simp add: colorize_def one_pixel_image_def gradePixel_identity_settings threshold128_def)
qed

subsection \<open>Hue rotation\<close>

lemma bound0To255_mod: "bound0To255 v mod 256 = bound0To255 v"
  by (simp add: bound0To255_def)

lemma gradePixel_hue_rotate:
  assumes "\<not> colorizeEnabled cs"
  shows "(let (r, g, b) = preHslChannels cs ct bt px;
              (h, s, l) = rgbToHsl r g b;
              s' = bound0To255 (c_div (uint s * saturationVal cs) 100);
              l' = bound0To255 (c_div (uint l * lightnessVal cs) 100);
              (hr, hg, hb) = hslToRgb (real_of_int ((uint h + hueVal cs) mod 256))
                               (real_of_int s') (real_of_int l');
              out = gradePixel cs ct bt ha px
          in (hueRedChannel cs \<longrightarrow> qRed out = hr) \<and>
             (hueGreenChannel cs \<longrightarrow> qGreen out = hg) \<and>
             (hueBlueChannel cs \<longrightarrow> qBlue out = hb))"
  using assms
  by (simp del: of_int_uint
      add: gradePixel_def preHslChannels_def newHue_def Let_def case_prod_beta uint_to_uchar
        bound0To255_mod qRgba_def qRgb_def)

lemma preHslChannels_neutral:
  "preHslChannels hue_shift_example (contrastTransform 0) (brightTransform 100) px =
     (threshold128 (qRed px), threshold128 (qGreen px), threshold128 (qBlue px))"
proof -
  have t: "uint (contrastTransform 0 ! unat c) = threshold128 c" for c :: uchar
    by (simp add: contrast_0_lookup threshold128_def)
  show ?thesis
    by (simp add: preHslChannels_def hue_shift_example_def identity_settings_def Let_def
        neutral_gain bound0To255_uchar bright_100_lookup t)
qed

lemma rgb_of_rotated_green:
  "hslToRgb 29 255 128 = (255, 174, 1)" and "hslToRgb 30 255 128 = (255, 180, 1)"
  by (simp_all add: hsl_eval)

text \<open>
  C10. In hue-rotate mode (colorize flag off) the sum of the pixel's hue and the configured
  hue is stored in an unsigned 8-bit variable, so the hue that the grading stage hands to
  the HSL-to-RGB conversion is the sum modulo 256, not the sum folded once by 255: every
  enabled channel of the pixel written back is the channel that \<^verbatim>\<open>hslToRgb\<close> returns for the
  hue \<open>(h + hueVal) mod 256\<close>, where \<open>h\<close> is the hue \<^verbatim>\<open>rgbToHsl\<close> stored for the pixel's
  channels after negation, gain and the two tables. For pixel hue 200 and configured hue
  100 this hue is 44, while the fold of 300 is 45.
\<close>

theorem hue_rotation_wraps_modulo_256:
  assumes "\<not> colorizeEnabled cs"
    and "y < length (scanLines img)" and "x < length (scanLines img ! y)"
  shows "(let px = scanLines img ! y ! x;
              (r, g, b) = preHslChannels cs (contrastTransform (contrastVal cs))
                            (brightTransform (brightVal cs)) px;
              (h, s, l) = rgbToHsl r g b;
              s' = bound0To255 (c_div (uint s * saturationVal cs) 100);
              l' = bound0To255 (c_div (uint l * lightnessVal cs) 100);
              (hr, hg, hb) = hslToRgb (real_of_int ((uint h + hueVal cs) mod 256))
                               (real_of_int s') (real_of_int l');
              out = scanLines (colorize cs img) ! y ! x
          in (hueRedChannel cs \<longrightarrow> qRed out = hr) \<and>
             (hueGreenChannel cs \<longrightarrow> qGreen out = hg) \<and>
             (hueBlueChannel cs \<longrightarrow> qBlue out = hb)) \<and>
         (uint (200 :: uchar) + 100) mod 256 = 44 \<and>
         foldHue (real_of_int (uint (200 :: uchar) + 100)) = 45"
proof -
  have "scanLines (colorize cs img) ! y ! x =
          gradePixel cs (contrastTransform (contrastVal cs)) (brightTransform (brightVal cs))
            (hasAlphaChannel img) (scanLines img ! y ! x)"
    using assms(2,3) by (rule colorize_nth)
  then show ?thesis
    using gradePixel_hue_rotate [OF assms(1), of "contrastTransform (contrastVal cs)"
        "brightTransform (brightVal cs)" "scanLines img ! y ! x" "hasAlphaChannel img"]
    by (simp add: Let_def foldHue_def)
qed

text \<open>
  With the neutral parameters and a hue rotation of 200, the pixel (10, 200, 30) enters the
  HSL conversion as pure green, of hue 85. The hue handed on is \<open>285 mod 256 = 29\<close> and the
  pixel written back is (255, 174, 1); the fold by 255 would hand on 30 and give green 180.
\<close>

theorem hue_rotation_wraps_modulo_256_witness:
  "qRed (scanLines (colorize hue_shift_example
           (one_pixel_image \<lparr>qAlpha = 200, qRed = 10, qGreen = 200, qBlue = 30\<rparr>)) ! 0 ! 0) = 255 \<and>
   qGreen (scanLines (colorize hue_shift_example
           (one_pixel_image \<lparr>qAlpha = 200, qRed = 10, qGreen = 200, qBlue = 30\<rparr>)) ! 0 ! 0) = 174 \<and>
   qBlue (scanLines (colorize hue_shift_example
           (one_pixel_image \<lparr>qAlpha = 200, qRed = 10, qGreen = 200, qBlue = 30\<rparr>)) ! 0 ! 0) = 1"
proof -
  have s: "contrastVal hue_shift_example = 0" "brightVal hue_shift_example = 100"
    "hueVal hue_shift_example = 200" "saturationVal hue_shift_example = 100"
    "lightnessVal hue_shift_example = 100" "\<not> colorizeEnabled hue_shift_example"
    "hueRedChannel hue_shift_example" "hueGreenChannel hue_shift_example"
    "hueBlueChannel hue_shift_example"
    by (simp_all add: hue_shift_example_def identity_settings_def)
  show ?thesis
    using hue_rotation_wraps_modulo_256
      [of hue_shift_example 0 "one_pixel_image \<lparr>qAlpha = 200, qRed = 10, qGreen = 200, qBlue = 30\<rparr>" 0]
    by (simp add: s Let_def one_pixel_image_def preHslChannels_neutral threshold128_def hsl_of_green
        c_div_def bound0To255_def rgb_of_rotated_green)
qed

end
